theory Spec2Isabelle
  imports Main "HOL-Library.Log_Nat"
begin

section \<open>Tokens and the lexer\<close>

text \<open>
  The package \<open>expressionparser\<close> is embedded function by function. A Go \<open>string\<close> is a
  sequence of bytes, here a \<open>string\<close> (a list of 8-bit \<open>char\<close>s). The lexer's lookahead
  \<open>ch\<close> is a \<open>rune\<close>, but it is only ever assigned \<open>0\<close> or \<open>rune(l.input[l.pos])\<close>, a
  byte widened, so it is a \<open>char\<close> here and \<open>CHR 0x00\<close> is the end-of-input sentinel.
  The cursor \<open>pos\<close> is a Go \<open>int\<close> that starts at 0 and is only incremented; it is a
  \<open>nat\<close> here. On the lexers that \<open>NewLexer\<close> makes and \<open>NextToken\<close> advances it stays
  between 1 and the input's length plus 1 (predicate \<open>primed\<close> below), so it never wraps
  and no index or slice of the input is out of range.
\<close>

datatype TokenType = EOF | NUMBER | PLUS | MINUS | MULT | DIV | LPAREN | RPAREN | INVALID

record Token =
  Type :: TokenType
  Value :: string

record Lexer =
  input :: string
  pos :: nat
  ch :: char

text \<open>
  \<open>unicode.IsSpace\<close> and \<open>unicode.IsDigit\<close> on the Latin-1 range, which is all a widened
  byte can reach: the white space characters are tab, line feed, vertical tab, form feed,
  carriage return, space, U+0085 and U+00A0; the digits are \<open>'0'\<close> to \<open>'9'\<close>.
\<close>

definition IsSpace :: "char \<Rightarrow> bool" where
  "IsSpace r = (r = CHR 0x09 \<or> r = CHR 0x0A \<or> r = CHR 0x0B \<or> r = CHR 0x0C \<or> r = CHR 0x0D
      \<or> r = CHR '' '' \<or> r = CHR 0x85 \<or> r = CHR 0xA0)"

definition IsDigit :: "char \<Rightarrow> bool" where
  "IsDigit r = ((48::nat) \<le> of_char r \<and> of_char r \<le> (57::nat))"

text \<open>\<open>readChar\<close>: load the byte under the cursor (or the sentinel) and advance the cursor.\<close>

definition readChar :: "Lexer \<Rightarrow> Lexer" where
  "readChar l =
     (if pos l \<ge> length (input l)
      then l\<lparr>ch := CHR 0x00, pos := pos l + 1\<rparr>
      else l\<lparr>ch := input l ! pos l, pos := pos l + 1\<rparr>)"

definition NewLexer :: "string \<Rightarrow> Lexer" where
  "NewLexer s = readChar \<lparr>input = s, pos = 0, ch = CHR 0x00\<rparr>"

text \<open>
  The two loops of the lexer, \<open>for unicode.IsSpace(l.ch) { l.readChar() }\<close> and
  \<open>for unicode.IsDigit(l.ch) { l.readChar() }\<close>, as recursive functions. Both stop:
  the sentinel is neither a space nor a digit, and \<open>remaining\<close> decreases with every
  \<open>readChar\<close> from a lookahead that is not the sentinel.
\<close>

definition remaining :: "Lexer \<Rightarrow> nat" where
  "remaining l = (if ch l = CHR 0x00 then 0 else Suc (length (input l) - pos l))"

lemma remaining_readChar: "ch l \<noteq> CHR 0x00 \<Longrightarrow> remaining (readChar l) < remaining l"
  by (auto simp: remaining_def readChar_def)

lemma IsSpace_nonzero: "IsSpace c \<Longrightarrow> c \<noteq> CHR 0x00"
  by (auto simp: IsSpace_def)

lemma IsDigit_nonzero: "IsDigit c \<Longrightarrow> c \<noteq> CHR 0x00"
  by (auto simp: IsDigit_def)

function skipSpace :: "Lexer \<Rightarrow> Lexer" where
  "skipSpace l = (if IsSpace (ch l) then skipSpace (readChar l) else l)"
  by pat_completeness auto
termination
  by (relation "measure remaining") (auto simp: remaining_readChar IsSpace_nonzero)

function readDigits :: "Lexer \<Rightarrow> Lexer" where
  "readDigits l = (if IsDigit (ch l) then readDigits (readChar l) else l)"
  by pat_completeness auto
termination
  by (relation "measure remaining") (auto simp: remaining_readChar IsDigit_nonzero)

declare skipSpace.simps [simp del] readDigits.simps [simp del]

text \<open>
  \<open>readNumber\<close> returns the slice \<open>l.input[start:l.pos-1]\<close>. On every lexer made by
  \<open>NewLexer\<close> and advanced by \<open>NextToken\<close> the bounds \<open>start \<le> pos - 1 \<le> len\<close> hold
  (lemma \<open>readNumber_bounds\<close> below), so the slice is \<open>take\<close> after \<open>drop\<close>.
\<close>

definition readNumber :: "Lexer \<Rightarrow> string \<times> Lexer" where
  "readNumber l =
     (let start = pos l - 1;
          l' = readDigits l
      in (take (pos l' - 1 - start) (drop start (input l')), l'))"

text \<open>
  \<open>fmt.Sprintf("%c", r)\<close> writes the UTF-8 encoding of the code point \<open>r\<close>: one byte
  below U+0080, two bytes from U+0080 to U+00FF.
\<close>

definition utf8 :: "char \<Rightarrow> string" where
  "utf8 r =
     (if (of_char r :: nat) < 128 then [r]
      else [char_of (192 + (of_char r :: nat) div 64), char_of (128 + (of_char r :: nat) mod 64)])"

definition NextToken :: "Lexer \<Rightarrow> Token \<times> Lexer" where
  "NextToken l =
     (let l1 = skipSpace l in
      if ch l1 = CHR 0x00 then (\<lparr>Type = EOF, Value = []\<rparr>, l1)
      else if IsDigit (ch l1) then
        (let (v, l2) = readNumber l1 in (\<lparr>Type = NUMBER, Value = v\<rparr>, l2))
      else
        (let tok =
           (if ch l1 = CHR ''+'' then \<lparr>Type = PLUS, Value = ''+''\<rparr>
            else if ch l1 = CHR ''-'' then \<lparr>Type = MINUS, Value = ''-''\<rparr>
            else if ch l1 = CHR ''*'' then \<lparr>Type = MULT, Value = ''*''\<rparr>
            else if ch l1 = CHR ''/'' then \<lparr>Type = DIV, Value = ''/''\<rparr>
            else if ch l1 = CHR ''('' then \<lparr>Type = LPAREN, Value = ''(''\<rparr>
            else if ch l1 = CHR '')'' then \<lparr>Type = RPAREN, Value = '')''\<rparr>
            else \<lparr>Type = INVALID, Value = ''Invalid character: '' @ utf8 (ch l1)\<rparr>)
         in (tok, readChar l1)))"

text \<open>The lexer after \<open>n\<close> calls of \<open>NextToken\<close>.\<close>

fun after_calls :: "nat \<Rightarrow> Lexer \<Rightarrow> Lexer" where
  "after_calls 0 l = l"
| "after_calls (Suc n) l = after_calls n (snd (NextToken l))"

section \<open>Numbers\<close>

text \<open>
  A Go \<open>float64\<close> is an IEEE 754 binary64 value: a finite value with its sign (so that
  \<open>+0\<close> and \<open>-0\<close> are distinct), an infinity, or a NaN. \<open>Finite s q\<close> is the value
  \<open>q\<close> (\<open>-q\<close> when \<open>s\<close>), with \<open>q\<close> the magnitude, a non-negative rational.
\<close>

datatype float64 = Finite bool rat | Infinite bool | NaN

definition pow2 :: "int \<Rightarrow> rat" where
  "pow2 k = (if 0 \<le> k then 2 ^ nat k else 1 / 2 ^ nat (- k))"

text \<open>
  \<open>ilog2 q\<close> is \<open>\<lfloor>log\<^sub>2 q\<rfloor>\<close> for a positive rational \<open>q\<close>, computed from the bit length
  of an integer (lemmas \<open>ilog2_bounds\<close> and \<open>ilog2_unique\<close> below).
\<close>

definition ilog2 :: "rat \<Rightarrow> int" where
  "ilog2 q = (if 1 \<le> q then bitlen \<lfloor>q\<rfloor> - 1 else - bitlen (\<lceil>1 / q\<rceil> - 1))"

text \<open>Rounding to the nearest integer, ties to the even one.\<close>

definition rne :: "rat \<Rightarrow> int" where
  "rne x =
     (let f = \<lfloor>x\<rfloor>; d = x - of_int f
      in if d < 1 / 2 then f
         else if 1 / 2 < d then f + 1
         else if even f then f else f + 1)"

text \<open>
  \<open>ulp q\<close> is the spacing of binary64 values around a positive \<open>q\<close>: 53 significant
  bits, and no exponent below \<open>-1022\<close> (the subnormal range has the spacing \<open>2\<^sup>-\<^sup>1\<^sup>0\<^sup>7\<^sup>4\<close>).
  \<open>round64 s q\<close> rounds the magnitude \<open>q\<close> to the nearest multiple of its spacing, ties
  to even (Go's only rounding mode), and overflows to infinity from \<open>2\<^sup>1\<^sup>0\<^sup>2\<^sup>4\<close> on.
\<close>

definition ulp :: "rat \<Rightarrow> rat" where
  "ulp q = pow2 (max (ilog2 q) (- 1022) - 52)"

definition round64 :: "bool \<Rightarrow> rat \<Rightarrow> float64" where
  "round64 s q =
     (if q = 0 then Finite s 0
      else
        let r = of_int (rne (q / ulp q)) * ulp q
        in if pow2 1024 \<le> r then Infinite s else Finite s r)"

definition signed :: "bool \<Rightarrow> rat \<Rightarrow> rat" where
  "signed s q = (if s then - q else q)"

text \<open>
  The four operators of Go on \<open>float64\<close>, by the cases of IEEE 754: a NaN operand gives
  NaN; the exact result of finite operands is rounded; an exact zero sum is \<open>+0\<close>
  unless both operands are negative.
\<close>

fun fneg :: "float64 \<Rightarrow> float64" where
  "fneg (Finite s q) = Finite (\<not> s) q"
| "fneg (Infinite s) = Infinite (\<not> s)"
| "fneg NaN = NaN"

fun fadd :: "float64 \<Rightarrow> float64 \<Rightarrow> float64" where
  "fadd NaN y = NaN"
| "fadd x NaN = NaN"
| "fadd (Infinite s) (Infinite t) = (if s = t then Infinite s else NaN)"
| "fadd (Infinite s) (Finite t b) = Infinite s"
| "fadd (Finite s a) (Infinite t) = Infinite t"
| "fadd (Finite s a) (Finite t b) =
     (let x = signed s a + signed t b
      in if x = 0 then Finite (s \<and> t) 0 else round64 (x < 0) \<bar>x\<bar>)"

definition fsub :: "float64 \<Rightarrow> float64 \<Rightarrow> float64" where
  "fsub x y = fadd x (fneg y)"

fun fmul :: "float64 \<Rightarrow> float64 \<Rightarrow> float64" where
  "fmul NaN y = NaN"
| "fmul x NaN = NaN"
| "fmul (Infinite s) (Infinite t) = Infinite (s \<noteq> t)"
| "fmul (Infinite s) (Finite t b) = (if b = 0 then NaN else Infinite (s \<noteq> t))"
| "fmul (Finite s a) (Infinite t) = (if a = 0 then NaN else Infinite (s \<noteq> t))"
| "fmul (Finite s a) (Finite t b) = round64 (s \<noteq> t) (a * b)"

fun fdiv :: "float64 \<Rightarrow> float64 \<Rightarrow> float64" where
  "fdiv NaN y = NaN"
| "fdiv x NaN = NaN"
| "fdiv (Infinite s) (Infinite t) = NaN"
| "fdiv (Infinite s) (Finite t b) = Infinite (s \<noteq> t)"
| "fdiv (Finite s a) (Infinite t) = Finite (s \<noteq> t) 0"
| "fdiv (Finite s a) (Finite t b) =
     (if b = 0 then (if a = 0 then NaN else Infinite (s \<noteq> t))
      else round64 (s \<noteq> t) (a / b))"

text \<open>The comparison \<open>right == 0\<close>: true of \<open>+0\<close> and \<open>-0\<close>, false of everything else.\<close>

fun is_zero :: "float64 \<Rightarrow> bool" where
  "is_zero (Finite s q) = (q = 0)"
| "is_zero (Infinite s) = False"
| "is_zero NaN = False"

text \<open>The rational a \<open>float64\<close> stands for, when it is finite.\<close>

fun rat_of :: "float64 \<Rightarrow> rat option" where
  "rat_of (Finite s q) = Some (signed s q)"
| "rat_of (Infinite s) = None"
| "rat_of NaN = None"

text \<open>
  \<open>parseNumber\<close> is \<open>var num float64; fmt.Sscanf(s, "%f", &num); return num\<close>: the scan
  either stores a value in \<open>num\<close> or fails and leaves the zero value there, and its
  error is dropped.

  \<open>fmt.Sscanf\<close> belongs to Go's standard library. On a non-empty string of decimal
  digits, the only payloads the lexer gives a \<open>NUMBER\<close> token, the scan of \<open>%f\<close> reads
  the whole string and converts it with \<open>strconv.ParseFloat\<close>, which returns the nearest
  binary64 value, or an infinity together with a range error when the numeral is too
  large; the scan stores nothing when the conversion reports an error. What the scan does
  on any other string is not modelled: it is the parameter \<open>other\<close> (the value stored, if
  any), passed down from \<open>Parse\<close>.
\<close>

definition decimal :: "string \<Rightarrow> nat" where
  "decimal s = foldl (\<lambda>n c. 10 * n + (of_char c - 48)) 0 s"

definition Sscanf_f :: "(string \<Rightarrow> float64 option) \<Rightarrow> string \<Rightarrow> float64 option" where
  "Sscanf_f other s =
     (if s \<noteq> [] \<and> list_all IsDigit s then
        (case round64 False (of_nat (decimal s)) of
           Finite sg q \<Rightarrow> Some (Finite sg q)
         | Infinite sg \<Rightarrow> None
         | NaN \<Rightarrow> None)
      else other s)"

definition parseNumber :: "(string \<Rightarrow> float64 option) \<Rightarrow> string \<Rightarrow> float64" where
  "parseNumber other s = (case Sscanf_f other s of Some num \<Rightarrow> num | None \<Rightarrow> Finite False 0)"

section \<open>Expression trees and the parser\<close>

text \<open>
  \<open>Expr\<close> is \<open>interface{}\<close>: the nodes \<open>*Number\<close> and \<open>*BinaryOp\<close> that the parser
  allocates, and \<open>Other\<close> for an interface value of any other dynamic type (\<open>nil\<close>
  included), which only \<open>Eval\<close>'s default branch sees. Errors are values of \<open>error\<close>,
  one constructor for each message of the package.
\<close>

datatype Expr = Number float64 | BinaryOp Expr Token Expr | Other

datatype error =
    ExpectedClosingParen
  | ExpectedNumberOrParen TokenType
  | DivisionByZero
  | UnsupportedExprType
  | InvalidExpression

record Parser =
  lexer :: Lexer
  curr :: Token

definition nextToken :: "Parser \<Rightarrow> Parser" where
  "nextToken p = (let (t, l') = NextToken (lexer p) in p\<lparr>lexer := l', curr := t\<rparr>)"

definition NewParser :: "Lexer \<Rightarrow> Parser" where
  "NewParser l = nextToken \<lparr>lexer = l, curr = \<lparr>Type = EOF, Value = []\<rparr>\<rparr>"

text \<open>
  The recursive descent. The parser holds a pointer to the lexer and mutates both, so
  every function takes the parser and returns it updated together with the tree, or
  returns the error. The two \<open>for\<close> loops are \<open>parseExprLoop\<close> and \<open>parseTermLoop\<close>,
  with the running \<open>left\<close> as an argument.
\<close>

function parseExpr :: "(string \<Rightarrow> float64 option) \<Rightarrow> Parser \<Rightarrow> error + Expr \<times> Parser"
  and parseExprLoop :: "(string \<Rightarrow> float64 option) \<Rightarrow> Expr \<Rightarrow> Parser \<Rightarrow> error + Expr \<times> Parser"
  and parseTerm :: "(string \<Rightarrow> float64 option) \<Rightarrow> Parser \<Rightarrow> error + Expr \<times> Parser"
  and parseTermLoop :: "(string \<Rightarrow> float64 option) \<Rightarrow> Expr \<Rightarrow> Parser \<Rightarrow> error + Expr \<times> Parser"
  and parseFactor :: "(string \<Rightarrow> float64 option) \<Rightarrow> Parser \<Rightarrow> error + Expr \<times> Parser"
where
  "parseExpr sc p =
     (case parseTerm sc p of
        Inl err \<Rightarrow> Inl err
      | Inr (left, p1) \<Rightarrow> parseExprLoop sc left p1)"
| "parseExprLoop sc left p =
     (if Type (curr p) = PLUS \<or> Type (curr p) = MINUS then
        (case parseTerm sc (nextToken p) of
           Inl err \<Rightarrow> Inl err
         | Inr (right, p2) \<Rightarrow> parseExprLoop sc (BinaryOp left (curr p) right) p2)
      else Inr (left, p))"
| "parseTerm sc p =
     (case parseFactor sc p of
        Inl err \<Rightarrow> Inl err
      | Inr (left, p1) \<Rightarrow> parseTermLoop sc left p1)"
| "parseTermLoop sc left p =
     (if Type (curr p) = MULT \<or> Type (curr p) = DIV then
        (case parseFactor sc (nextToken p) of
           Inl err \<Rightarrow> Inl err
         | Inr (right, p2) \<Rightarrow> parseTermLoop sc (BinaryOp left (curr p) right) p2)
      else Inr (left, p))"
| "parseFactor sc p =
     (if Type (curr p) = NUMBER then
        Inr (Number (parseNumber sc (Value (curr p))), nextToken p)
      else if Type (curr p) = LPAREN then
        (case parseExpr sc (nextToken p) of
           Inl err \<Rightarrow> Inl err
         | Inr (expr, p2) \<Rightarrow>
             if Type (curr p2) \<noteq> RPAREN then Inl ExpectedClosingParen
             else Inr (expr, nextToken p2))
      else Inl (ExpectedNumberOrParen (Type (curr p))))"
  by pat_completeness auto

text \<open>
  Termination. Every recursive call that is not a call of a function lower in the
  grammar comes after a \<open>nextToken\<close> from a current token that is not \<open>EOF\<close>, and such
  a \<open>nextToken\<close> lowers \<open>pending\<close>: the lexer's \<open>remaining\<close>, plus one while the current
  token is not \<open>EOF\<close>.
\<close>

lemma remaining_skipSpace: "remaining (skipSpace l) \<le> remaining l"
proof (induction l rule: skipSpace.induct)
  case (1 l)
  show ?case
  proof (cases "IsSpace (ch l)")
    case True
    with 1 have "remaining (skipSpace (readChar l)) \<le> remaining (readChar l)" by simp
    moreover have "remaining (readChar l) < remaining l"
      using True by (simp add: remaining_readChar IsSpace_nonzero)
    ultimately show ?thesis using True by (subst skipSpace.simps) simp
  next
    case False
    then show ?thesis by (subst skipSpace.simps) simp
  qed
qed

lemma remaining_readDigits: "remaining (readDigits l) \<le> remaining l"
proof (induction l rule: readDigits.induct)
  case (1 l)
  show ?case
  proof (cases "IsDigit (ch l)")
    case True
    with 1 have "remaining (readDigits (readChar l)) \<le> remaining (readChar l)" by simp
    moreover have "remaining (readChar l) < remaining l"
      using True by (simp add: remaining_readChar IsDigit_nonzero)
    ultimately show ?thesis using True by (subst readDigits.simps) simp
  next
    case False
    then show ?thesis by (subst readDigits.simps) simp
  qed
qed

lemma remaining_readDigits_less:
  "IsDigit (ch l) \<Longrightarrow> remaining (readDigits l) < remaining l"
  using remaining_readDigits [of "readChar l"] remaining_readChar [of l]
  by (subst readDigits.simps) (simp add: IsDigit_nonzero)

lemma remaining_NextToken_less:
  "Type (fst (NextToken l)) \<noteq> EOF \<Longrightarrow> remaining (snd (NextToken l)) < remaining l"
proof -
  assume a: "Type (fst (NextToken l)) \<noteq> EOF"
  let ?l1 = "skipSpace l"
  have nz: "ch ?l1 \<noteq> CHR 0x00" using a by (auto simp: NextToken_def Let_def)
  have "remaining (snd (NextToken l)) < remaining ?l1"
  proof (cases "IsDigit (ch ?l1)")
    case True
    then show ?thesis using nz remaining_readDigits_less [of ?l1]
      by (simp add: NextToken_def Let_def readNumber_def)
  next
    case False
    then show ?thesis using nz remaining_readChar [of ?l1]
      by (simp add: NextToken_def Let_def)
  qed
  then show ?thesis using remaining_skipSpace [of l] by simp
qed

lemma remaining_NextToken_le: "remaining (snd (NextToken l)) \<le> remaining l"
proof (cases "Type (fst (NextToken l)) = EOF")
  case True
  then have "snd (NextToken l) = skipSpace l"
    by (auto simp: NextToken_def Let_def split: if_splits prod.splits)
  then show ?thesis by (simp add: remaining_skipSpace)
next
  case False
  then show ?thesis using remaining_NextToken_less [of l] by simp
qed

definition pending :: "Parser \<Rightarrow> nat" where
  "pending p = remaining (lexer p) + (if Type (curr p) = EOF then 0 else 1)"

lemma pending_nextToken: "Type (curr p) \<noteq> EOF \<Longrightarrow> pending (nextToken p) < pending p"
  using remaining_NextToken_less [of "lexer p"] remaining_NextToken_le [of "lexer p"]
  by (cases "Type (fst (NextToken (lexer p))) = EOF")
     (simp_all add: pending_def nextToken_def case_prod_beta)

abbreviation (input) "parser_dom \<equiv> parseExpr_parseExprLoop_parseTerm_parseTermLoop_parseFactor_dom"

lemmas parser_pinduct = parseExpr_parseExprLoop_parseTerm_parseTermLoop_parseFactor.pinduct

lemma pending_mono_dom:
  "parser_dom (Inl (Inl (sc, p))) \<Longrightarrow> parseExpr sc p = Inr (e, p') \<Longrightarrow> pending p' \<le> pending p"
  "parser_dom (Inl (Inr (sc, left, p))) \<Longrightarrow> parseExprLoop sc left p = Inr (e, p') \<Longrightarrow> pending p' \<le> pending p"
  "parser_dom (Inr (Inl (sc, p))) \<Longrightarrow> parseTerm sc p = Inr (e, p') \<Longrightarrow> pending p' \<le> pending p"
  "parser_dom (Inr (Inr (Inl (sc, left, p)))) \<Longrightarrow> parseTermLoop sc left p = Inr (e, p') \<Longrightarrow> pending p' \<le> pending p"
  "parser_dom (Inr (Inr (Inr (sc, p)))) \<Longrightarrow> parseFactor sc p = Inr (e, p') \<Longrightarrow> pending p' \<le> pending p"
proof (induction sc p and sc left p and sc p and sc left p and sc p arbitrary: e p' and e p' and e p' and e p' and e p' rule: parser_pinduct)
  case (1 sc p)
  then show ?case
    by (auto simp: parseExpr.psimps split: sum.splits prod.splits) (meson le_trans)
next
  case (2 sc left p)
  show ?case
  proof (cases "Type (curr p) = PLUS \<or> Type (curr p) = MINUS")
    case True
    then have ne: "Type (curr p) \<noteq> EOF" by auto
    from 2(4) True 2(1) obtain right p2 where
      t: "parseTerm sc (nextToken p) = Inr (right, p2)" and
      l: "parseExprLoop sc (BinaryOp left (curr p) right) p2 = Inr (e, p')"
      by (auto simp: parseExprLoop.psimps split: sum.splits prod.splits)
    have "pending p2 \<le> pending (nextToken p)" using 2(2) [OF True t] .
    moreover have "pending p' \<le> pending p2" using 2(3) [OF True t refl l] .
    ultimately show ?thesis using pending_nextToken [OF ne] by simp
  next
    case False
    with 2(4) 2(1) show ?thesis by (simp add: parseExprLoop.psimps)
  qed
next
  case (3 sc p)
  then show ?case
    by (auto simp: parseTerm.psimps split: sum.splits prod.splits) (meson le_trans)
next
  case (4 sc left p)
  show ?case
  proof (cases "Type (curr p) = MULT \<or> Type (curr p) = DIV")
    case True
    then have ne: "Type (curr p) \<noteq> EOF" by auto
    from 4(4) True 4(1) obtain right p2 where
      t: "parseFactor sc (nextToken p) = Inr (right, p2)" and
      l: "parseTermLoop sc (BinaryOp left (curr p) right) p2 = Inr (e, p')"
      by (auto simp: parseTermLoop.psimps split: sum.splits prod.splits)
    have "pending p2 \<le> pending (nextToken p)" using 4(2) [OF True t] .
    moreover have "pending p' \<le> pending p2" using 4(3) [OF True t refl l] .
    ultimately show ?thesis using pending_nextToken [OF ne] by simp
  next
    case False
    with 4(4) 4(1) show ?thesis by (simp add: parseTermLoop.psimps)
  qed
next
  case (5 sc p)
  show ?case
  proof (cases "Type (curr p) = NUMBER")
    case True
    then have "p' = nextToken p" using 5(3) 5(1) by (simp add: parseFactor.psimps)
    then show ?thesis using pending_nextToken [of p] True by simp
  next
    case False
    then have lp: "Type (curr p) = LPAREN" using 5(3) 5(1)
      by (auto simp: parseFactor.psimps split: if_splits)
    with False 5(3) 5(1) obtain p2 where
      t: "parseExpr sc (nextToken p) = Inr (e, p2)" and
      r: "Type (curr p2) = RPAREN" and p': "p' = nextToken p2"
      by (auto simp: parseFactor.psimps split: sum.splits prod.splits if_splits)
    have "pending p2 \<le> pending (nextToken p)" using 5(2) [OF False lp t] .
    moreover have "pending p' < pending p2" using pending_nextToken [of p2] r p' by simp
    moreover have "pending (nextToken p) < pending p" using pending_nextToken [of p] lp by simp
    ultimately show ?thesis by simp
  qed
qed

definition parser_measure ::
  "((string \<Rightarrow> float64 option) \<times> Parser + (string \<Rightarrow> float64 option) \<times> Expr \<times> Parser) +
   (string \<Rightarrow> float64 option) \<times> Parser + (string \<Rightarrow> float64 option) \<times> Expr \<times> Parser +
   (string \<Rightarrow> float64 option) \<times> Parser \<Rightarrow> nat \<times> nat" where
  "parser_measure x =
     (case x of
        Inl (Inl (sc, p)) \<Rightarrow> (pending p, 4)
      | Inl (Inr (sc, left, p)) \<Rightarrow> (pending p, 3)
      | Inr (Inl (sc, p)) \<Rightarrow> (pending p, 2)
      | Inr (Inr (Inl (sc, left, p))) \<Rightarrow> (pending p, 1)
      | Inr (Inr (Inr (sc, p))) \<Rightarrow> (pending p, 0))"

termination parseExpr
proof (relation "inv_image (less_than <*lex*> less_than) parser_measure", goal_cases)
  case 1
  show ?case by (intro wf_inv_image wf_lex_prod wf_less_than)
next
  case (2 sc p)
  then show ?case by (simp add: parser_measure_def)
next
  case (3 sc p x2 x y)
  then show ?case using pending_mono_dom(3) [of sc p x y]
    by (auto simp: parser_measure_def)
next
  case (4 sc left p)
  then show ?case using pending_nextToken [of p] by (auto simp: parser_measure_def)
next
  case (5 sc left p x2 x y)
  then show ?case using pending_mono_dom(3) [of sc "nextToken p" x y] pending_nextToken [of p]
    by (auto simp: parser_measure_def)
next
  case (6 sc p)
  then show ?case by (simp add: parser_measure_def)
next
  case (7 sc p x2 x y)
  then show ?case using pending_mono_dom(5) [of sc p x y]
    by (auto simp: parser_measure_def)
next
  case (8 sc left p)
  then show ?case using pending_nextToken [of p] by (auto simp: parser_measure_def)
next
  case (9 sc left p x2 x y)
  then show ?case using pending_mono_dom(5) [of sc "nextToken p" x y] pending_nextToken [of p]
    by (auto simp: parser_measure_def)
next
  case (10 sc p)
  then show ?case using pending_nextToken [of p] by (auto simp: parser_measure_def)
qed

declare parseExpr.simps [simp del] parseExprLoop.simps [simp del] parseTerm.simps [simp del]
  parseTermLoop.simps [simp del] parseFactor.simps [simp del]

definition Parse :: "(string \<Rightarrow> float64 option) \<Rightarrow> Parser \<Rightarrow> error + Expr \<times> Parser" where
  "Parse sc p = parseExpr sc p"

section \<open>The evaluator\<close>

fun Eval :: "Expr \<Rightarrow> error + float64" where
  "Eval (Number v) = Inr v"
| "Eval (BinaryOp l op r) =
     (case Eval l of
        Inl err \<Rightarrow> Inl err
      | Inr left \<Rightarrow>
          (case Eval r of
             Inl err \<Rightarrow> Inl err
           | Inr right \<Rightarrow>
               (case Type op of
                  PLUS \<Rightarrow> Inr (fadd left right)
                | MINUS \<Rightarrow> Inr (fsub left right)
                | MULT \<Rightarrow> Inr (fmul left right)
                | DIV \<Rightarrow> if is_zero right then Inl DivisionByZero else Inr (fdiv left right)
                | _ \<Rightarrow> Inl InvalidExpression)))"
| "Eval Other = Inl UnsupportedExprType"

text \<open>
  The pipeline of \<open>main\<close> on an input string: a fresh lexer, a fresh parser, \<open>Parse\<close>,
  then \<open>Eval\<close> of the tree; the first error ends the run.
\<close>

definition run :: "(string \<Rightarrow> float64 option) \<Rightarrow> string \<Rightarrow> error + float64" where
  "run sc s =
     (case Parse sc (NewParser (NewLexer s)) of
        Inl err \<Rightarrow> Inl err
      | Inr (ast, p) \<Rightarrow> Eval ast)"

section \<open>Facts about rounding\<close>

lemma pow2_powi: "pow2 k = 2 powi k"
  by (simp add: pow2_def power_int_def inverse_eq_divide power_one_over)

lemma pow2_pos: "0 < pow2 k"
  by (simp add: pow2_powi)

lemma pow2_add: "pow2 (a + b) = pow2 a * pow2 b"
  by (simp add: pow2_powi power_int_add)

lemma pow2_mono: "a \<le> b \<Longrightarrow> pow2 a \<le> pow2 b"
  by (simp add: pow2_powi power_int_increasing)

lemma pow2_nat: "0 \<le> k \<Longrightarrow> pow2 k = of_int (2 ^ nat k)"
  by (simp add: pow2_def)

lemma ilog2_bounds:
  assumes "0 < q"
  shows "pow2 (ilog2 q) \<le> q" and "q < pow2 (ilog2 q + 1)"
proof -
  have "pow2 (ilog2 q) \<le> q \<and> q < pow2 (ilog2 q + 1)"
  proof (cases "1 \<le> q")
    case True
    let ?n = "\<lfloor>q\<rfloor>"
    have n: "0 < ?n" using True by simp
    have b: "2 ^ nat (bitlen ?n - 1) \<le> ?n" "?n < 2 ^ nat (bitlen ?n)"
      using bitlen_bounds [OF n] by simp_all
    have k: "1 \<le> bitlen ?n" using n by (simp add: bitlen_alt_def)
    have i: "ilog2 q = bitlen ?n - 1" using True by (simp add: ilog2_def)
    have "(of_int (2 ^ nat (bitlen ?n - 1)) :: rat) \<le> of_int ?n" using b(1) by (simp only: of_int_le_iff)
    also have "\<dots> \<le> q" by simp
    finally have lo: "pow2 (ilog2 q) \<le> q" using k by (simp add: i pow2_nat)
    have "?n + 1 \<le> 2 ^ nat (bitlen ?n)" using b(2) by simp
    then have "(of_int (?n + 1) :: rat) \<le> of_int (2 ^ nat (bitlen ?n))" by (simp only: of_int_le_iff)
    moreover have "q < of_int (?n + 1)" by linarith
    ultimately have "q < of_int (2 ^ nat (bitlen ?n))" by linarith
    then have hi: "q < pow2 (ilog2 q + 1)" using k by (simp add: i pow2_nat)
    show ?thesis using lo hi by simp
  next
    case False
    let ?m = "\<lceil>1 / q\<rceil>"
    let ?j = "bitlen (?m - 1)"
    have x: "1 < 1 / q" using False assms by simp
    then have m: "0 < ?m - 1" by linarith
    have b: "2 ^ nat (?j - 1) \<le> ?m - 1" "?m - 1 < 2 ^ nat ?j"
      using bitlen_bounds [OF m] by simp_all
    have j: "1 \<le> ?j" using m by (simp add: bitlen_alt_def)
    have i: "ilog2 q = - ?j" using False by (simp add: ilog2_def)
    have "?m \<le> 2 ^ nat ?j" using b(2) by simp
    then have "(of_int ?m :: rat) \<le> of_int (2 ^ nat ?j)" by (simp only: of_int_le_iff)
    moreover have "1 / q \<le> of_int ?m" by (rule le_of_int_ceiling)
    ultimately have "1 / q \<le> of_int (2 ^ nat ?j)" by (rule order_trans [rotated])
    then have "1 / q \<le> 2 ^ nat ?j" by simp
    then have "1 \<le> 2 ^ nat ?j * q" using assms by (simp add: field_simps)
    then have lo: "pow2 (ilog2 q) \<le> q" using j by (simp add: i pow2_def field_simps)
    have "(of_int (2 ^ nat (?j - 1)) :: rat) \<le> of_int (?m - 1)" using b(1) by (simp only: of_int_le_iff)
    moreover have "of_int (?m - 1) < 1 / q" by linarith
    ultimately have "of_int (2 ^ nat (?j - 1)) < 1 / q" by (rule le_less_trans)
    then have "2 ^ nat (?j - 1) < 1 / q" by simp
    then have "q < 1 / 2 ^ nat (?j - 1)" using assms by (simp add: field_simps)
    moreover have "pow2 (ilog2 q + 1) = 1 / 2 ^ nat (?j - 1)"
      using j by (cases "?j = 1") (simp_all add: i pow2_def nat_diff_distrib)
    ultimately have hi: "q < pow2 (ilog2 q + 1)" by (simp only:)
    show ?thesis using lo hi by simp
  qed
  then show "pow2 (ilog2 q) \<le> q" and "q < pow2 (ilog2 q + 1)" by simp_all
qed

lemma pow2_less_cancel: "pow2 a < pow2 b \<Longrightarrow> a < b"
  using pow2_mono [of b a] by (cases "a < b") auto

lemma ilog2_unique: "0 < q \<Longrightarrow> pow2 k \<le> q \<Longrightarrow> q < pow2 (k + 1) \<Longrightarrow> ilog2 q = k"
proof -
  assume q: "0 < q" and lo: "pow2 k \<le> q" and hi: "q < pow2 (k + 1)"
  have "pow2 k < pow2 (ilog2 q + 1)" using lo ilog2_bounds(2) [OF q] by simp
  then have a: "k < ilog2 q + 1" by (rule pow2_less_cancel)
  have "pow2 (ilog2 q) < pow2 (k + 1)" using hi ilog2_bounds(1) [OF q] by simp
  then have "ilog2 q < k + 1" by (rule pow2_less_cancel)
  with a show ?thesis by simp
qed

lemma rne_of_int: "rne (of_int n) = n"
  by (simp add: rne_def)

lemma rne_ge_floor: "\<lfloor>x\<rfloor> \<le> rne x"
  by (simp add: rne_def Let_def)

definition representable :: "rat \<Rightarrow> bool" where
  "representable q =
     (q = 0 \<or> (0 < q \<and> q < pow2 1024 \<and> of_int \<lfloor>q / ulp q\<rfloor> = q / ulp q))"

lemma ulp_pos: "0 < ulp q"
  by (simp add: ulp_def pow2_pos)

lemma round64_exact: "representable q \<Longrightarrow> round64 s q = Finite s q"
proof (cases "q = 0")
  case True
  then show ?thesis by (simp add: round64_def)
next
  case False
  assume "representable q"
  with False have lt: "q < pow2 1024" and i: "of_int \<lfloor>q / ulp q\<rfloor> = q / ulp q"
    by (simp_all add: representable_def)
  have "rne (q / ulp q) = \<lfloor>q / ulp q\<rfloor>" using rne_of_int [of "\<lfloor>q / ulp q\<rfloor>"] i by simp
  then have "of_int (rne (q / ulp q)) * ulp q = q / ulp q * ulp q" by (simp only: i)
  then have "of_int (rne (q / ulp q)) * ulp q = q" using ulp_pos [of q] by simp
  then show ?thesis using False lt by (simp add: round64_def Let_def)
qed

lemma round64_overflow:
  assumes "pow2 1024 \<le> q"
  shows "round64 s q = Infinite s"
proof -
  have q: "0 < q" using assms pow2_pos [of 1024] by linarith
  have "pow2 1024 < pow2 (ilog2 q + 1)" using assms ilog2_bounds(2) [OF q] by simp
  then have e: "1024 \<le> ilog2 q" using pow2_less_cancel [of 1024 "ilog2 q + 1"] by simp
  then have u: "ulp q = pow2 (ilog2 q - 52)" by (simp add: ulp_def max_def)
  have "pow2 (ilog2 q) = pow2 (ilog2 q - 52) * pow2 52" using pow2_add [of "ilog2 q - 52" 52] by simp
  then have "pow2 52 * ulp q \<le> q" using ilog2_bounds(1) [OF q] u by (simp add: mult.commute)
  then have "pow2 52 \<le> q / ulp q" using ulp_pos [of q] by (simp add: pos_le_divide_eq)
  then have "of_int (2 ^ 52) \<le> q / ulp q" by (simp add: pow2_def)
  then have "2 ^ 52 \<le> \<lfloor>q / ulp q\<rfloor>" by (simp only: le_floor_iff)
  then have "2 ^ 52 \<le> rne (q / ulp q)" using rne_ge_floor [of "q / ulp q"] by linarith
  then have "(of_int (2 ^ 52) :: rat) \<le> of_int (rne (q / ulp q))" by (simp only: of_int_le_iff)
  then have "pow2 52 * ulp q \<le> of_int (rne (q / ulp q)) * ulp q"
    using ulp_pos [of q] by (simp add: pow2_def)
  moreover have "pow2 52 * ulp q = pow2 (ilog2 q)"
    using pow2_add [of 52 "ilog2 q - 52"] u by simp
  moreover have "pow2 1024 \<le> pow2 (ilog2 q)" using e by (rule pow2_mono)
  ultimately have "pow2 1024 \<le> of_int (rne (q / ulp q)) * ulp q" by linarith
  then show ?thesis using q by (simp add: round64_def Let_def)
qed

section \<open>Facts about the lexer\<close>

lemma pos_readChar: "pos (readChar l) = Suc (pos l)"
  by (simp add: readChar_def)

lemma input_readChar: "input (readChar l) = input l"
  by (simp add: readChar_def)

lemma pos_skipSpace: "pos l \<le> pos (skipSpace l)"
proof (induction l rule: skipSpace.induct)
  case (1 l)
  show ?case
  proof (cases "IsSpace (ch l)")
    case True
    with 1 have "pos (readChar l) \<le> pos (skipSpace (readChar l))" by simp
    then show ?thesis using True by (subst skipSpace.simps) (simp add: pos_readChar)
  next
    case False
    then show ?thesis by (subst skipSpace.simps) simp
  qed
qed

lemma pos_readDigits: "pos l \<le> pos (readDigits l)"
proof (induction l rule: readDigits.induct)
  case (1 l)
  show ?case
  proof (cases "IsDigit (ch l)")
    case True
    with 1 have "pos (readChar l) \<le> pos (readDigits (readChar l))" by simp
    then show ?thesis using True by (subst readDigits.simps) (simp add: pos_readChar)
  next
    case False
    then show ?thesis by (subst readDigits.simps) simp
  qed
qed

lemma input_skipSpace: "input (skipSpace l) = input l"
proof (induction l rule: skipSpace.induct)
  case (1 l)
  then show ?case by (subst skipSpace.simps) (simp add: input_readChar)
qed

lemma input_readDigits: "input (readDigits l) = input l"
proof (induction l rule: readDigits.induct)
  case (1 l)
  then show ?case by (subst readDigits.simps) (simp add: input_readChar)
qed

lemma pos_NextToken: "pos l \<le> pos (snd (NextToken l))"
proof -
  have "pos (skipSpace l) \<le> pos (snd (NextToken l))"
    using pos_readDigits [of "skipSpace l"]
    by (simp add: NextToken_def Let_def readNumber_def pos_readChar)
  then show ?thesis using pos_skipSpace [of l] by simp
qed

lemma input_NextToken: "input (snd (NextToken l)) = input l"
  by (simp add: NextToken_def Let_def readNumber_def input_readChar input_skipSpace
      input_readDigits)

lemma pos_after_calls: "pos l \<le> pos (after_calls n l)"
proof (induction n arbitrary: l)
  case 0
  show ?case by simp
next
  case (Suc n)
  have "pos l \<le> pos (snd (NextToken l))" by (rule pos_NextToken)
  also have "\<dots> \<le> pos (after_calls n (snd (NextToken l)))" by (rule Suc.IH)
  finally show ?case by simp
qed

lemma after_calls_add: "after_calls (n + k) l = after_calls k (after_calls n l)"
  by (induction n arbitrary: l) simp_all

text \<open>
  The lexers that \<open>NewLexer\<close> makes and \<open>NextToken\<close> advances are \<open>primed\<close>: the
  lookahead is the byte before the cursor, or the sentinel once the cursor has passed the
  end. \<open>unread\<close> is the text from the lookahead on.
\<close>

definition primed :: "Lexer \<Rightarrow> bool" where
  "primed l =
     (1 \<le> pos l \<and> pos l \<le> Suc (length (input l))
      \<and> ch l = (if pos l - 1 < length (input l) then input l ! (pos l - 1) else CHR 0x00))"

definition unread :: "Lexer \<Rightarrow> string" where
  "unread l = drop (pos l - 1) (input l)"

fun lookahead :: "string \<Rightarrow> char" where
  "lookahead [] = CHR 0x00"
| "lookahead (c # cs) = c"

lemma primed_NewLexer: "primed (NewLexer s)"
  by (simp add: primed_def NewLexer_def readChar_def)

lemma unread_NewLexer: "unread (NewLexer s) = s"
  by (simp add: unread_def NewLexer_def readChar_def)

lemma ch_unread: "primed l \<Longrightarrow> ch l = lookahead (unread l)"
  by (cases "drop (pos l - 1) (input l)")
     (auto simp: primed_def unread_def hd_drop_conv_nth [symmetric] dest: arg_cong [where f = hd])

lemma primed_readChar: "primed l \<Longrightarrow> ch l \<noteq> CHR 0x00 \<Longrightarrow> primed (readChar l)"
  by (auto simp: primed_def readChar_def split: if_splits)

lemma unread_readChar: "primed l \<Longrightarrow> unread (readChar l) = tl (unread l)"
  by (simp add: primed_def unread_def readChar_def drop_Suc [symmetric] tl_drop Suc_diff_le)

lemma skipSpace_spec:
  "primed l \<Longrightarrow> primed (skipSpace l) \<and> unread (skipSpace l) = dropWhile IsSpace (unread l)"
proof (induction l rule: skipSpace.induct)
  case (1 l)
  show ?case
  proof (cases "IsSpace (ch l)")
    case True
    then have nz: "ch l \<noteq> CHR 0x00" by (rule IsSpace_nonzero)
    obtain cs where u: "unread l = ch l # cs"
      using ch_unread [OF 1(2)] nz by (cases "unread l") auto
    have "primed (skipSpace (readChar l))
        \<and> unread (skipSpace (readChar l)) = dropWhile IsSpace (unread (readChar l))"
      using 1(1) [OF True primed_readChar [OF 1(2) nz]] .
    then show ?thesis using True u unread_readChar [OF 1(2)]
      by (subst (1 2) skipSpace.simps) simp
  next
    case False
    then have "dropWhile IsSpace (unread l) = unread l"
      using ch_unread [OF 1(2)] by (cases "unread l") auto
    then show ?thesis using False 1(2) by (subst (1 2) skipSpace.simps) simp
  qed
qed

lemma readDigits_spec:
  "primed l \<Longrightarrow> primed (readDigits l) \<and> unread (readDigits l) = dropWhile IsDigit (unread l)
     \<and> pos (readDigits l) = pos l + length (takeWhile IsDigit (unread l))"
proof (induction l rule: readDigits.induct)
  case (1 l)
  show ?case
  proof (cases "IsDigit (ch l)")
    case True
    then have nz: "ch l \<noteq> CHR 0x00" by (rule IsDigit_nonzero)
    obtain cs where u: "unread l = ch l # cs"
      using ch_unread [OF 1(2)] nz by (cases "unread l") auto
    have "primed (readDigits (readChar l))
        \<and> unread (readDigits (readChar l)) = dropWhile IsDigit (unread (readChar l))
        \<and> pos (readDigits (readChar l)) = pos (readChar l) + length (takeWhile IsDigit (unread (readChar l)))"
      using 1(1) [OF True primed_readChar [OF 1(2) nz]] .
    then show ?thesis using True u unread_readChar [OF 1(2)]
      by (subst (1 2 3) readDigits.simps) (simp add: pos_readChar)
  next
    case False
    then have "dropWhile IsDigit (unread l) = unread l" "takeWhile IsDigit (unread l) = []"
      using ch_unread [OF 1(2)] by (cases "unread l"; auto)+
    then show ?thesis using False 1(2) by (subst (1 2 3) readDigits.simps) simp
  qed
qed

lemma readNumber_spec:
  "primed l \<Longrightarrow> fst (readNumber l) = takeWhile IsDigit (unread l)"
proof -
  assume p: "primed l"
  have "take (length (takeWhile IsDigit (unread l))) (unread l) = takeWhile IsDigit (unread l)"
    by (metis append_eq_conv_conj takeWhile_dropWhile_id)
  moreover have "pos (readDigits l) - 1 - (pos l - 1) = length (takeWhile IsDigit (unread l))"
    using readDigits_spec [OF p] p by (simp add: primed_def)
  ultimately show ?thesis
    by (simp add: readNumber_def Let_def input_readDigits unread_def)
qed

lemma readNumber_bounds:
  "primed l \<Longrightarrow> pos l - 1 \<le> pos (readDigits l) - 1 \<and> pos (readDigits l) - 1 \<le> length (input l)"
  using readDigits_spec [of l] by (auto simp: primed_def input_readDigits)

text \<open>
  On a primed lexer \<open>NextToken\<close> is a function of the unread text, \<open>scan\<close>; \<open>symbol\<close>
  is the \<open>switch\<close> on the lookahead.
\<close>

definition symbol :: "char \<Rightarrow> Token" where
  "symbol c =
     (if c = CHR ''+'' then \<lparr>Type = PLUS, Value = ''+''\<rparr>
      else if c = CHR ''-'' then \<lparr>Type = MINUS, Value = ''-''\<rparr>
      else if c = CHR ''*'' then \<lparr>Type = MULT, Value = ''*''\<rparr>
      else if c = CHR ''/'' then \<lparr>Type = DIV, Value = ''/''\<rparr>
      else if c = CHR ''('' then \<lparr>Type = LPAREN, Value = ''(''\<rparr>
      else if c = CHR '')'' then \<lparr>Type = RPAREN, Value = '')''\<rparr>
      else \<lparr>Type = INVALID, Value = ''Invalid character: '' @ utf8 c\<rparr>)"

definition scan :: "string \<Rightarrow> Token \<times> string" where
  "scan s =
     (case dropWhile IsSpace s of
        [] \<Rightarrow> (\<lparr>Type = EOF, Value = []\<rparr>, [])
      | c # cs \<Rightarrow>
          if c = CHR 0x00 then (\<lparr>Type = EOF, Value = []\<rparr>, c # cs)
          else if IsDigit c then
            (\<lparr>Type = NUMBER, Value = takeWhile IsDigit (c # cs)\<rparr>, dropWhile IsDigit (c # cs))
          else (symbol c, cs))"

lemma NextToken_scan:
  assumes "primed l"
  shows "fst (NextToken l) = fst (scan (unread l))"
    and "unread (snd (NextToken l)) = snd (scan (unread l))"
    and "primed (snd (NextToken l))"
proof -
  let ?l1 = "skipSpace l"
  define r where "r = dropWhile IsSpace (unread l)"
  have p1: "primed ?l1" and u1: "unread ?l1 = r"
    using skipSpace_spec [OF assms] by (simp_all add: r_def)
  have c1: "ch ?l1 = lookahead r" using ch_unread [OF p1] u1 by simp
  have sc: "scan (unread l) =
     (case r of
        [] \<Rightarrow> (\<lparr>Type = EOF, Value = []\<rparr>, [])
      | c # cs \<Rightarrow>
          if c = CHR 0x00 then (\<lparr>Type = EOF, Value = []\<rparr>, c # cs)
          else if IsDigit c then
            (\<lparr>Type = NUMBER, Value = takeWhile IsDigit (c # cs)\<rparr>, dropWhile IsDigit (c # cs))
          else (symbol c, cs))"
    by (simp add: scan_def r_def)
  have "fst (NextToken l) = fst (scan (unread l))
      \<and> unread (snd (NextToken l)) = snd (scan (unread l)) \<and> primed (snd (NextToken l))"
  proof (cases r)
    case Nil
    then show ?thesis using p1 c1 u1 by (simp add: NextToken_def sc Let_def)
  next
    case (Cons c cs)
    show ?thesis
    proof (cases "c = CHR 0x00")
      case True
      then show ?thesis using p1 c1 u1 Cons by (simp add: NextToken_def sc Let_def)
    next
      case nz: False
      show ?thesis
      proof (cases "IsDigit c")
        case True
        then show ?thesis
          using p1 c1 u1 Cons nz readDigits_spec [OF p1] readNumber_spec [OF p1]
          by (simp add: NextToken_def sc Let_def case_prod_beta readNumber_def)
      next
        case False
        then show ?thesis
          using p1 c1 u1 Cons nz primed_readChar [OF p1] unread_readChar [OF p1]
          by (simp add: NextToken_def sc Let_def symbol_def)
      qed
    qed
  qed
  then show "fst (NextToken l) = fst (scan (unread l))"
    and "unread (snd (NextToken l)) = snd (scan (unread l))"
    and "primed (snd (NextToken l))" by simp_all
qed

function tokens :: "Lexer \<Rightarrow> Token list" where
  "tokens l = (if Type (fst (NextToken l)) = EOF then [fst (NextToken l)]
               else fst (NextToken l) # tokens (snd (NextToken l)))"
  by pat_completeness auto
termination
  by (relation "measure remaining") (auto simp: remaining_NextToken_less)

declare tokens.simps [simp del]

lemma primed_after_calls: "primed l \<Longrightarrow> primed (after_calls n l)"
  by (induction n arbitrary: l) (simp_all add: NextToken_scan(3))

lemma lookahead_dropWhile: "\<not> P (CHR 0x00) \<Longrightarrow> \<not> P (lookahead (dropWhile P s))"
  by (induction s) auto

section \<open>Token streams and the grammar\<close>

text \<open>
  \<open>tokens l\<close> are the tokens that successive calls of \<open>NextToken\<close> return, up to and
  with the first \<open>EOF\<close>; \<open>stream p\<close> is the parser's current token followed by the
  tokens its lexer still holds.
\<close>

definition stream :: "Parser \<Rightarrow> Token list" where
  "stream p = curr p # (if Type (curr p) = EOF then [] else tokens (lexer p))"

lemma stream_nonempty: "stream p \<noteq> []"
  by (simp add: stream_def)

lemma hd_stream: "hd (stream p) = curr p"
  by (simp add: stream_def)

lemma stream_nextToken: "Type (curr p) \<noteq> EOF \<Longrightarrow> stream (nextToken p) = tl (stream p)"
  by (subst (2) stream_def, subst tokens.simps) (simp add: stream_def nextToken_def case_prod_beta)

lemma stream_NewParser: "stream (NewParser l) = tokens l"
  by (subst tokens.simps) (simp add: stream_def NewParser_def nextToken_def case_prod_beta)

lemma stream_Cons: "stream p = t # ts \<Longrightarrow> curr p = t"
  using hd_stream [of p] by simp

lemma stream_step: "stream p = t # ts \<Longrightarrow> Type t \<noteq> EOF \<Longrightarrow> stream (nextToken p) = ts"
  using stream_nextToken [of p] stream_Cons [of p t ts] by simp

datatype addop = Add | Sub

datatype mulop = Mul | Quo

datatype factor = Num string | Paren expression
  and "term" = Term factor mtail
  and mtail = MNil | MCons mulop factor mtail
  and expression = Expression "term" atail
  and atail = ANil | ACons addop "term" atail

definition digits :: "string \<Rightarrow> bool" where
  "digits s = (s \<noteq> [] \<and> list_all IsDigit s)"

primrec wf_factor :: "factor \<Rightarrow> bool"
  and wf_term :: "term \<Rightarrow> bool"
  and wf_mtail :: "mtail \<Rightarrow> bool"
  and wf_expression :: "expression \<Rightarrow> bool"
  and wf_atail :: "atail \<Rightarrow> bool"
where
  "wf_factor (Num s) = digits s"
| "wf_factor (Paren e) = wf_expression e"
| "wf_term (Term f m) = (wf_factor f \<and> wf_mtail m)"
| "wf_mtail MNil = True"
| "wf_mtail (MCons op f m) = (wf_factor f \<and> wf_mtail m)"
| "wf_expression (Expression t a) = (wf_term t \<and> wf_atail a)"
| "wf_atail ANil = True"
| "wf_atail (ACons op t a) = (wf_term t \<and> wf_atail a)"

fun addop_lexeme :: "addop \<Rightarrow> string" where
  "addop_lexeme Add = ''+''"
| "addop_lexeme Sub = ''-''"

fun mulop_lexeme :: "mulop \<Rightarrow> string" where
  "mulop_lexeme Mul = ''*''"
| "mulop_lexeme Quo = ''/''"

primrec lexemes_factor :: "factor \<Rightarrow> string list"
  and lexemes_term :: "term \<Rightarrow> string list"
  and lexemes_mtail :: "mtail \<Rightarrow> string list"
  and lexemes_expression :: "expression \<Rightarrow> string list"
  and lexemes_atail :: "atail \<Rightarrow> string list"
where
  "lexemes_factor (Num s) = [s]"
| "lexemes_factor (Paren e) = ''('' # lexemes_expression e @ ['')'']"
| "lexemes_term (Term f m) = lexemes_factor f @ lexemes_mtail m"
| "lexemes_mtail MNil = []"
| "lexemes_mtail (MCons op f m) = mulop_lexeme op # lexemes_factor f @ lexemes_mtail m"
| "lexemes_expression (Expression t a) = lexemes_term t @ lexemes_atail a"
| "lexemes_atail ANil = []"
| "lexemes_atail (ACons op t a) = addop_lexeme op # lexemes_term t @ lexemes_atail a"

definition token_of :: "string \<Rightarrow> Token" where
  "token_of x = (if IsDigit (hd x) then \<lparr>Type = NUMBER, Value = x\<rparr> else symbol (hd x))"

datatype binop = Plus | Minus | Times | Divide

datatype ast = Lit string | Bin ast binop ast

fun binop_of_addop :: "addop \<Rightarrow> binop" where
  "binop_of_addop Add = Plus"
| "binop_of_addop Sub = Minus"

fun binop_of_mulop :: "mulop \<Rightarrow> binop" where
  "binop_of_mulop Mul = Times"
| "binop_of_mulop Quo = Divide"

primrec ast_factor :: "factor \<Rightarrow> ast"
  and ast_term :: "term \<Rightarrow> ast"
  and ast_mtail :: "mtail \<Rightarrow> ast \<Rightarrow> ast"
  and ast_expression :: "expression \<Rightarrow> ast"
  and ast_atail :: "atail \<Rightarrow> ast \<Rightarrow> ast"
where
  "ast_factor (Num s) = Lit s"
| "ast_factor (Paren e) = ast_expression e"
| "ast_term (Term f m) = ast_mtail m (ast_factor f)"
| "ast_mtail MNil = (\<lambda>left. left)"
| "ast_mtail (MCons op f m) = (\<lambda>left. ast_mtail m (Bin left (binop_of_mulop op) (ast_factor f)))"
| "ast_expression (Expression t a) = ast_atail a (ast_term t)"
| "ast_atail ANil = (\<lambda>left. left)"
| "ast_atail (ACons op t a) = (\<lambda>left. ast_atail a (Bin left (binop_of_addop op) (ast_term t)))"

fun binop_token :: "binop \<Rightarrow> Token" where
  "binop_token Plus = \<lparr>Type = PLUS, Value = ''+''\<rparr>"
| "binop_token Minus = \<lparr>Type = MINUS, Value = ''-''\<rparr>"
| "binop_token Times = \<lparr>Type = MULT, Value = ''*''\<rparr>"
| "binop_token Divide = \<lparr>Type = DIV, Value = ''/''\<rparr>"

fun tree :: "(string \<Rightarrow> float64 option) \<Rightarrow> ast \<Rightarrow> Expr" where
  "tree sc (Lit s) = Number (parseNumber sc s)"
| "tree sc (Bin l op r) = BinaryOp (tree sc l) (binop_token op) (tree sc r)"

lemma token_of_digits: "digits s \<Longrightarrow> token_of s = \<lparr>Type = NUMBER, Value = s\<rparr>"
  by (cases s) (auto simp: digits_def token_of_def)

lemma token_of_addop: "token_of (addop_lexeme op) = binop_token (binop_of_addop op)"
  by (cases op) (simp_all add: token_of_def symbol_def IsDigit_def)

lemma token_of_mulop: "token_of (mulop_lexeme op) = binop_token (binop_of_mulop op)"
  by (cases op) (simp_all add: token_of_def symbol_def IsDigit_def)

lemma token_of_parens:
  "token_of ''('' = \<lparr>Type = LPAREN, Value = ''(''\<rparr>" "token_of '')'' = \<lparr>Type = RPAREN, Value = '')''\<rparr>"
  by (simp_all add: token_of_def symbol_def IsDigit_def)

definition is_addop :: "Token \<Rightarrow> bool" where
  "is_addop t = (Type t = PLUS \<or> Type t = MINUS)"

definition is_mulop :: "Token \<Rightarrow> bool" where
  "is_mulop t = (Type t = MULT \<or> Type t = DIV)"

lemma Type_binop_token_addop:
  "is_addop (binop_token (binop_of_addop op))" "\<not> is_mulop (binop_token (binop_of_addop op))"
  "Type (binop_token (binop_of_addop op)) \<noteq> EOF"
  by (cases op; simp add: is_addop_def is_mulop_def)+

lemma Type_binop_token_mulop:
  "is_mulop (binop_token (binop_of_mulop op))" "Type (binop_token (binop_of_mulop op)) \<noteq> EOF"
  by (cases op; simp add: is_mulop_def)+

lemma hd_atail_not_mulop:
  "\<not> is_mulop (hd ts) \<Longrightarrow> \<not> is_mulop (hd (map token_of (lexemes_atail a) @ ts))"
  by (cases a) (simp_all add: token_of_addop Type_binop_token_addop)

lemma parser_on_grammar:
  "wf_factor f \<Longrightarrow> stream p = map token_of (lexemes_factor f) @ ts \<Longrightarrow> ts \<noteq> [] \<Longrightarrow>
     \<exists>p'. parseFactor sc p = Inr (tree sc (ast_factor f), p') \<and> stream p' = ts"
  "wf_term t \<Longrightarrow> stream p = map token_of (lexemes_term t) @ ts \<Longrightarrow> ts \<noteq> [] \<Longrightarrow>
     \<not> is_mulop (hd ts) \<Longrightarrow>
     \<exists>p'. parseTerm sc p = Inr (tree sc (ast_term t), p') \<and> stream p' = ts"
  "wf_mtail m \<Longrightarrow> stream p = map token_of (lexemes_mtail m) @ ts \<Longrightarrow> ts \<noteq> [] \<Longrightarrow>
     \<not> is_mulop (hd ts) \<Longrightarrow>
     \<exists>p'. parseTermLoop sc (tree sc left) p = Inr (tree sc (ast_mtail m left), p') \<and> stream p' = ts"
  "wf_expression e \<Longrightarrow> stream p = map token_of (lexemes_expression e) @ ts \<Longrightarrow> ts \<noteq> [] \<Longrightarrow>
     \<not> is_mulop (hd ts) \<Longrightarrow> \<not> is_addop (hd ts) \<Longrightarrow>
     \<exists>p'. parseExpr sc p = Inr (tree sc (ast_expression e), p') \<and> stream p' = ts"
  "wf_atail a \<Longrightarrow> stream p = map token_of (lexemes_atail a) @ ts \<Longrightarrow> ts \<noteq> [] \<Longrightarrow>
     \<not> is_mulop (hd ts) \<Longrightarrow> \<not> is_addop (hd ts) \<Longrightarrow>
     \<exists>p'. parseExprLoop sc (tree sc left) p = Inr (tree sc (ast_atail a left), p') \<and> stream p' = ts"
proof (induction f and t and m and e and a arbitrary: p ts and p ts and p ts left and p ts and p ts left)
  case (Num s)
  then have c: "curr p = \<lparr>Type = NUMBER, Value = s\<rparr>" and s: "stream (nextToken p) = ts"
    by (auto simp: token_of_digits dest: stream_Cons stream_step)
  then show ?case by (simp add: parseFactor.simps)
next
  case (Paren e)
  let ?rp = "\<lparr>Type = RPAREN, Value = '')''\<rparr>"
  from Paren.prems have w: "wf_expression e"
    and st: "stream p = \<lparr>Type = LPAREN, Value = ''(''\<rparr> # map token_of (lexemes_expression e) @ ?rp # ts"
    by (simp_all add: token_of_parens)
  have c: "curr p = \<lparr>Type = LPAREN, Value = ''(''\<rparr>" using st by (rule stream_Cons)
  have s1: "stream (nextToken p) = map token_of (lexemes_expression e) @ ?rp # ts"
    using stream_step [OF st] by simp
  obtain p2 where e: "parseExpr sc (nextToken p) = Inr (tree sc (ast_expression e), p2)"
    and s2: "stream p2 = ?rp # ts"
    using Paren.IH [OF w s1] by (auto simp: is_mulop_def is_addop_def)
  have c2: "curr p2 = ?rp" using s2 by (rule stream_Cons)
  have "stream (nextToken p2) = ts" using stream_step [OF s2] by simp
  then show ?case using c e c2 by (simp add: parseFactor.simps)
next
  case (Term f m)
  from Term.prems have wf: "wf_factor f" and wm: "wf_mtail m"
    and st: "stream p = map token_of (lexemes_factor f) @ (map token_of (lexemes_mtail m) @ ts)"
    by simp_all
  obtain p1 where f: "parseFactor sc p = Inr (tree sc (ast_factor f), p1)"
    and s1: "stream p1 = map token_of (lexemes_mtail m) @ ts"
    using Term.IH(1) [OF wf st] Term.prems(3) by auto
  obtain p' where "parseTermLoop sc (tree sc (ast_factor f)) p1
        = Inr (tree sc (ast_mtail m (ast_factor f)), p')" and "stream p' = ts"
    using Term.IH(2) [OF wm s1 Term.prems(3) Term.prems(4)] by auto
  then show ?case using f by (simp add: parseTerm.simps)
next
  case MNil
  then have "curr p = hd ts" using hd_stream [of p] by simp
  then show ?case using MNil by (simp add: parseTermLoop.simps is_mulop_def)
next
  case (MCons op f m)
  let ?op = "binop_token (binop_of_mulop op)"
  from MCons.prems have wf: "wf_factor f" and wm: "wf_mtail m"
    and st: "stream p = ?op # map token_of (lexemes_factor f) @ (map token_of (lexemes_mtail m) @ ts)"
    by (simp_all add: token_of_mulop)
  have c: "curr p = ?op" using st by (rule stream_Cons)
  have s1: "stream (nextToken p) = map token_of (lexemes_factor f) @ (map token_of (lexemes_mtail m) @ ts)"
    using stream_step [OF st] by (simp add: Type_binop_token_mulop)
  obtain p2 where f: "parseFactor sc (nextToken p) = Inr (tree sc (ast_factor f), p2)"
    and s2: "stream p2 = map token_of (lexemes_mtail m) @ ts"
    using MCons.IH(1) [OF wf s1] MCons.prems(3) by auto
  obtain p' where "parseTermLoop sc (tree sc (Bin left (binop_of_mulop op) (ast_factor f))) p2
        = Inr (tree sc (ast_mtail m (Bin left (binop_of_mulop op) (ast_factor f))), p')"
    and "stream p' = ts"
    using MCons.IH(2) [where left = "Bin left (binop_of_mulop op) (ast_factor f)",
        OF wm s2 MCons.prems(3) MCons.prems(4)] by auto
  then show ?case using c f Type_binop_token_mulop(1) [of op]
    by (subst parseTermLoop.simps) (simp add: is_mulop_def)
next
  case (Expression t a)
  from Expression.prems have wt: "wf_term t" and wa: "wf_atail a"
    and st: "stream p = map token_of (lexemes_term t) @ (map token_of (lexemes_atail a) @ ts)"
    by simp_all
  obtain p1 where t: "parseTerm sc p = Inr (tree sc (ast_term t), p1)"
    and s1: "stream p1 = map token_of (lexemes_atail a) @ ts"
    using Expression.IH(1) [OF wt st] Expression.prems(3) hd_atail_not_mulop [OF Expression.prems(4)]
    by auto
  obtain p' where "parseExprLoop sc (tree sc (ast_term t)) p1
        = Inr (tree sc (ast_atail a (ast_term t)), p')" and "stream p' = ts"
    using Expression.IH(2) [OF wa s1 Expression.prems(3) Expression.prems(4) Expression.prems(5)]
    by auto
  then show ?case using t by (simp add: parseExpr.simps)
next
  case ANil
  then have "curr p = hd ts" using hd_stream [of p] by simp
  then show ?case using ANil by (simp add: parseExprLoop.simps is_addop_def)
next
  case (ACons op t a)
  let ?op = "binop_token (binop_of_addop op)"
  from ACons.prems have wt: "wf_term t" and wa: "wf_atail a"
    and st: "stream p = ?op # map token_of (lexemes_term t) @ (map token_of (lexemes_atail a) @ ts)"
    by (simp_all add: token_of_addop)
  have c: "curr p = ?op" using st by (rule stream_Cons)
  have s1: "stream (nextToken p) = map token_of (lexemes_term t) @ (map token_of (lexemes_atail a) @ ts)"
    using stream_step [OF st] by (simp add: Type_binop_token_addop)
  obtain p2 where t: "parseTerm sc (nextToken p) = Inr (tree sc (ast_term t), p2)"
    and s2: "stream p2 = map token_of (lexemes_atail a) @ ts"
    using ACons.IH(1) [OF wt s1] ACons.prems(3) hd_atail_not_mulop [OF ACons.prems(4)] by auto
  obtain p' where "parseExprLoop sc (tree sc (Bin left (binop_of_addop op) (ast_term t))) p2
        = Inr (tree sc (ast_atail a (Bin left (binop_of_addop op) (ast_term t))), p')"
    and "stream p' = ts"
    using ACons.IH(2) [where left = "Bin left (binop_of_addop op) (ast_term t)",
        OF wa s2 ACons.prems(3) ACons.prems(4) ACons.prems(5)] by auto
  then show ?case using c t Type_binop_token_addop(1) [of op]
    by (subst parseExprLoop.simps) (simp add: is_addop_def)
qed

section \<open>White space between tokens\<close>

text \<open>
  \<open>spell ps fin\<close> is an input text: each lexeme \<open>x\<close> of \<open>ps\<close> preceded by its run \<open>w\<close>
  of white space, then the rest \<open>fin\<close>, which holds white space only up to its end or to
  a zero byte (where the lexer stops for good). In a \<open>layout\<close> every lexeme is a run of
  digits or one byte that is neither white space, a digit nor zero, and two runs of
  digits are kept apart by white space.
\<close>

fun spell :: "(string \<times> string) list \<Rightarrow> string \<Rightarrow> string" where
  "spell [] fin = fin"
| "spell ((w, x) # ps) fin = w @ x @ spell ps fin"

definition lexeme :: "string \<Rightarrow> bool" where
  "lexeme x =
     (digits x \<or> (length x = 1 \<and> \<not> IsSpace (hd x) \<and> \<not> IsDigit (hd x) \<and> hd x \<noteq> CHR 0x00))"

definition stop :: "string \<Rightarrow> bool" where
  "stop fin = (lookahead (dropWhile IsSpace fin) = CHR 0x00)"

fun layout :: "(string \<times> string) list \<Rightarrow> bool" where
  "layout [] = True"
| "layout [(w, x)] = (list_all IsSpace w \<and> lexeme x)"
| "layout ((w, x) # (w', x') # ps) =
     (list_all IsSpace w \<and> lexeme x \<and> (digits x \<and> digits x' \<longrightarrow> w' \<noteq> [])
      \<and> layout ((w', x') # ps))"

lemma digit_not_space: "IsDigit c \<Longrightarrow> \<not> IsSpace c"
  by (auto simp: IsDigit_def IsSpace_def)

lemma lexeme_cases:
  assumes "lexeme x"
  obtains (number) c cs where "x = c # cs" "digits x" "IsDigit c"
  | (sym) c where "x = [c]" "\<not> IsSpace c" "\<not> IsDigit c" "c \<noteq> CHR 0x00"
proof (cases "digits x")
  case True
  then obtain c cs where "x = c # cs" "IsDigit c" by (cases x) (auto simp: digits_def)
  with True number show ?thesis by blast
next
  case False
  with assms obtain c where "x = [c]" "\<not> IsSpace c" "\<not> IsDigit c" "c \<noteq> CHR 0x00"
    by (cases x) (auto simp: lexeme_def)
  with sym show ?thesis by blast
qed

lemma scan_lexeme:
  assumes w: "list_all IsSpace w" and x: "lexeme x"
    and sep: "digits x \<Longrightarrow> \<not> IsDigit (lookahead rest)"
  shows "scan (w @ x @ rest) = (token_of x, rest)"
proof -
  have dw: "dropWhile IsSpace (w @ x @ rest) = dropWhile IsSpace (x @ rest)"
    using w by (simp add: list_all_iff dropWhile_append)
  from x show ?thesis
  proof (cases rule: lexeme_cases)
    case (number c cs)
    have all: "\<forall>d\<in>set x. IsDigit d" using number(2) by (simp add: digits_def list_all_iff)
    have r: "takeWhile IsDigit rest = []" "dropWhile IsDigit rest = rest"
      using sep [OF number(2)] by (cases rest; simp)+
    have "takeWhile IsDigit (x @ rest) = x" "dropWhile IsDigit (x @ rest) = rest"
      using all r by (simp_all add: takeWhile_append dropWhile_append)
    then show ?thesis
      using number digit_not_space [of c] IsDigit_nonzero [of c] dw
      by (simp add: scan_def token_of_def)
  next
    case (sym c)
    then show ?thesis using dw by (simp add: scan_def token_of_def)
  qed
qed

lemma scan_stop: "stop fin \<Longrightarrow> Type (fst (scan fin)) = EOF \<and> Value (fst (scan fin)) = []"
  unfolding scan_def stop_def by (auto split: list.splits)

lemma Type_symbol: "c \<noteq> CHR 0x00 \<Longrightarrow> Type (symbol c) \<noteq> EOF"
  by (simp add: symbol_def)

lemma Type_token_of: "lexeme x \<Longrightarrow> Type (token_of x) \<noteq> EOF"
  by (erule lexeme_cases) (simp_all add: token_of_def symbol_def)

lemma layout_tl: "layout (a # ps) \<Longrightarrow> layout ps"
  by (cases a; cases ps) auto

lemma layout_hd: "layout ((w, x) # ps) \<Longrightarrow> list_all IsSpace w \<and> lexeme x"
  by (cases ps) auto

lemma layout_sep:
  assumes "layout ((w, x) # ps)" and "stop fin" and "digits x"
  shows "\<not> IsDigit (lookahead (spell ps fin))"
proof (cases ps)
  case Nil
  show ?thesis
  proof (cases fin)
    case Nil
    with \<open>ps = []\<close> show ?thesis by (simp add: IsDigit_def)
  next
    case (Cons c cs)
    then show ?thesis using assms(2) \<open>ps = []\<close> digit_not_space [of c]
      by (auto simp: stop_def dest: IsDigit_nonzero)
  qed
next
  case (Cons a ps')
  obtain w' x' where a: "a = (w', x')" by (cases a)
  have l: "list_all IsSpace w'" "lexeme x'" "w' = [] \<Longrightarrow> \<not> digits x'"
    using assms(1,3) Cons a layout_hd [of w' x' ps'] by auto
  show ?thesis
  proof (cases w')
    case Nil
    from l(2) show ?thesis
    proof (cases rule: lexeme_cases)
      case (number c cs)
      then show ?thesis using l(3) Nil by simp
    next
      case (sym c)
      then show ?thesis using Cons a Nil by simp
    qed
  next
    case (Cons c cs)
    then show ?thesis using l(1) \<open>ps = a # ps'\<close> a digit_not_space [of c] by auto
  qed
qed

lemma tokens_layout:
  "primed l \<Longrightarrow> unread l = spell ps fin \<Longrightarrow> layout ps \<Longrightarrow> stop fin \<Longrightarrow>
     tokens l = map (\<lambda>(w, x). token_of x) ps @ [\<lparr>Type = EOF, Value = []\<rparr>]"
proof (induction ps arbitrary: l)
  case Nil
  then have "Type (fst (NextToken l)) = EOF" "Value (fst (NextToken l)) = []"
    using NextToken_scan(1) [OF Nil(1)] scan_stop [of fin] by simp_all
  then show ?case by (subst tokens.simps) simp
next
  case (Cons a ps)
  obtain w x where a: "a = (w, x)" by (cases a)
  have h: "list_all IsSpace w" "lexeme x" using Cons.prems(3) a layout_hd by auto
  have sc: "scan (unread l) = (token_of x, spell ps fin)"
    using Cons.prems(2) a scan_lexeme [OF h, of "spell ps fin"]
      layout_sep [of w x ps fin] Cons.prems(3,4) by simp
  have nt: "fst (NextToken l) = token_of x" "unread (snd (NextToken l)) = spell ps fin"
    "primed (snd (NextToken l))"
    using NextToken_scan [OF Cons.prems(1)] sc by simp_all
  have "tokens (snd (NextToken l)) = map (\<lambda>(w, x). token_of x) ps @ [\<lparr>Type = EOF, Value = []\<rparr>]"
    using Cons.IH [OF nt(3) nt(2) layout_tl Cons.prems(4)] Cons.prems(3) by simp
  then show ?case using nt(1) Type_token_of [OF h(2)] a by (subst tokens.simps) simp
qed

section \<open>The parser reads its lexer only through the token stream\<close>

fun same_result :: "error + Expr \<times> Parser \<Rightarrow> error + Expr \<times> Parser \<Rightarrow> bool" where
  "same_result (Inl e) (Inl e') = (e = e')"
| "same_result (Inr (t, p)) (Inr (t', p')) = (t = t' \<and> stream p = stream p')"
| "same_result (Inl e) (Inr r) = False"
| "same_result (Inr r) (Inl e) = False"

lemma stream_curr: "stream p = stream q \<Longrightarrow> curr p = curr q"
  using hd_stream [of p] hd_stream [of q] by simp

lemma stream_next: "stream p = stream q \<Longrightarrow> Type (curr p) \<noteq> EOF \<Longrightarrow>
    stream (nextToken p) = stream (nextToken q)"
  using stream_nextToken [of p] stream_nextToken [of q] stream_curr [of p q] by simp

lemmas parser_induct = parseExpr_parseExprLoop_parseTerm_parseTermLoop_parseFactor.induct

lemma parser_stream:
  "stream p = stream q \<Longrightarrow> same_result (parseExpr sc p) (parseExpr sc q)"
  "stream p = stream q \<Longrightarrow> same_result (parseExprLoop sc left p) (parseExprLoop sc left q)"
  "stream p = stream q \<Longrightarrow> same_result (parseTerm sc p) (parseTerm sc q)"
  "stream p = stream q \<Longrightarrow> same_result (parseTermLoop sc left p) (parseTermLoop sc left q)"
  "stream p = stream q \<Longrightarrow> same_result (parseFactor sc p) (parseFactor sc q)"
proof (induction sc p and sc left p and sc p and sc left p and sc p
    arbitrary: q and q and q and q and q rule: parser_induct)
  case (1 sc p)
  have t: "same_result (parseTerm sc p) (parseTerm sc q)" using 1(1) [OF 1(3)] .
  show ?case
  proof (cases "parseTerm sc p")
    case (Inl e)
    then show ?thesis using t by (cases "parseTerm sc q") (simp_all add: parseExpr.simps)
  next
    case (Inr r)
    obtain left p1 where r: "r = (left, p1)" by (cases r)
    obtain q1 where tq: "parseTerm sc q = Inr (left, q1)" and s: "stream p1 = stream q1"
      using t Inr r by (cases "parseTerm sc q") auto
    show ?thesis using 1(2) [OF Inr r [symmetric] s] Inr r tq by (simp add: parseExpr.simps)
  qed
next
  case (2 sc left p)
  have c: "curr p = curr q" using 2(3) by (rule stream_curr)
  show ?case
  proof (cases "Type (curr p) = PLUS \<or> Type (curr p) = MINUS")
    case True
    then have n: "stream (nextToken p) = stream (nextToken q)"
      using stream_next [OF 2(3)] by auto
    have t: "same_result (parseTerm sc (nextToken p)) (parseTerm sc (nextToken q))"
      using 2(1) [OF True n] .
    show ?thesis
    proof (cases "parseTerm sc (nextToken p)")
      case (Inl e)
      then show ?thesis using t True c
        by (cases "parseTerm sc (nextToken q)")
           (simp_all add: parseExprLoop.simps [of sc left p] parseExprLoop.simps [of sc left q])
    next
      case (Inr r)
      obtain right p2 where r: "r = (right, p2)" by (cases r)
      obtain q2 where tq: "parseTerm sc (nextToken q) = Inr (right, q2)"
        and s: "stream p2 = stream q2"
        using t Inr r by (cases "parseTerm sc (nextToken q)") auto
      show ?thesis using 2(2) [OF True Inr r [symmetric] s] Inr r tq True c
        by (simp add: parseExprLoop.simps [of sc left p] parseExprLoop.simps [of sc left q])
    qed
  next
    case False
    then show ?thesis using c 2(3)
      by (simp add: parseExprLoop.simps [of sc left p] parseExprLoop.simps [of sc left q])
  qed
next
  case (3 sc p)
  have t: "same_result (parseFactor sc p) (parseFactor sc q)" using 3(1) [OF 3(3)] .
  show ?case
  proof (cases "parseFactor sc p")
    case (Inl e)
    then show ?thesis using t by (cases "parseFactor sc q") (simp_all add: parseTerm.simps)
  next
    case (Inr r)
    obtain left p1 where r: "r = (left, p1)" by (cases r)
    obtain q1 where tq: "parseFactor sc q = Inr (left, q1)" and s: "stream p1 = stream q1"
      using t Inr r by (cases "parseFactor sc q") auto
    show ?thesis using 3(2) [OF Inr r [symmetric] s] Inr r tq by (simp add: parseTerm.simps)
  qed
next
  case (4 sc left p)
  have c: "curr p = curr q" using 4(3) by (rule stream_curr)
  show ?case
  proof (cases "Type (curr p) = MULT \<or> Type (curr p) = DIV")
    case True
    then have n: "stream (nextToken p) = stream (nextToken q)"
      using stream_next [OF 4(3)] by auto
    have t: "same_result (parseFactor sc (nextToken p)) (parseFactor sc (nextToken q))"
      using 4(1) [OF True n] .
    show ?thesis
    proof (cases "parseFactor sc (nextToken p)")
      case (Inl e)
      then show ?thesis using t True c
        by (cases "parseFactor sc (nextToken q)")
           (simp_all add: parseTermLoop.simps [of sc left p] parseTermLoop.simps [of sc left q])
    next
      case (Inr r)
      obtain right p2 where r: "r = (right, p2)" by (cases r)
      obtain q2 where tq: "parseFactor sc (nextToken q) = Inr (right, q2)"
        and s: "stream p2 = stream q2"
        using t Inr r by (cases "parseFactor sc (nextToken q)") auto
      show ?thesis using 4(2) [OF True Inr r [symmetric] s] Inr r tq True c
        by (simp add: parseTermLoop.simps [of sc left p] parseTermLoop.simps [of sc left q])
    qed
  next
    case False
    then show ?thesis using c 4(3)
      by (simp add: parseTermLoop.simps [of sc left p] parseTermLoop.simps [of sc left q])
  qed
next
  case (5 sc p)
  have c: "curr p = curr q" using 5(2) by (rule stream_curr)
  show ?case
  proof (cases "Type (curr p) = NUMBER")
    case True
    then show ?thesis using c stream_next [OF 5(2)]
      by (simp add: parseFactor.simps [of sc p] parseFactor.simps [of sc q])
  next
    case nn: False
    show ?thesis
    proof (cases "Type (curr p) = LPAREN")
      case True
      then have n: "stream (nextToken p) = stream (nextToken q)"
        using stream_next [OF 5(2)] by auto
      have t: "same_result (parseExpr sc (nextToken p)) (parseExpr sc (nextToken q))"
        using 5(1) [OF nn True n] .
      show ?thesis
      proof (cases "parseExpr sc (nextToken p)")
        case (Inl e)
        then show ?thesis using t True c
          by (cases "parseExpr sc (nextToken q)")
             (simp_all add: parseFactor.simps [of sc p] parseFactor.simps [of sc q])
      next
        case (Inr r)
        obtain expr p2 where r: "r = (expr, p2)" by (cases r)
        obtain q2 where tq: "parseExpr sc (nextToken q) = Inr (expr, q2)"
          and s: "stream p2 = stream q2"
          using t Inr r by (cases "parseExpr sc (nextToken q)") auto
        have c2: "curr p2 = curr q2" using s by (rule stream_curr)
        show ?thesis using Inr r tq True c c2 stream_next [OF s]
          by (simp add: parseFactor.simps [of sc p] parseFactor.simps [of sc q])
      qed
    next
      case False
      then show ?thesis using nn c
        by (simp add: parseFactor.simps [of sc p] parseFactor.simps [of sc q])
    qed
  qed
qed

lemma run_tokens:
  assumes "tokens (NewLexer s) = tokens (NewLexer s')"
  shows "run sc s = run sc s'"
    and "map_sum id fst (Parse sc (NewParser (NewLexer s))) = map_sum id fst (Parse sc (NewParser (NewLexer s')))"
proof -
  have "stream (NewParser (NewLexer s)) = stream (NewParser (NewLexer s'))"
    using assms by (simp add: stream_NewParser)
  then have r: "same_result (parseExpr sc (NewParser (NewLexer s))) (parseExpr sc (NewParser (NewLexer s')))"
    by (rule parser_stream(1))
  show "run sc s = run sc s'"
    using r
    by (cases "parseExpr sc (NewParser (NewLexer s))"; cases "parseExpr sc (NewParser (NewLexer s'))")
       (auto simp: run_def Parse_def)
  show "map_sum id fst (Parse sc (NewParser (NewLexer s))) = map_sum id fst (Parse sc (NewParser (NewLexer s')))"
    using r
    by (cases "parseExpr sc (NewParser (NewLexer s))"; cases "parseExpr sc (NewParser (NewLexer s'))")
       (auto simp: Parse_def)
qed

section \<open>Division by zero\<close>

text \<open>
  \<open>divides_by_zero e\<close>: the evaluation of \<open>e\<close> reaches a division node whose right operand
  evaluates to zero. \<open>Eval\<close> evaluates the left operand first and stops at the first
  error, so the node is reached when it lies in the left operand, or when the left operand
  evaluates to a value and the node lies in the right operand, or when both operands
  evaluate to values and the node is this one.
\<close>

fun divides_by_zero :: "Expr \<Rightarrow> bool" where
  "divides_by_zero (Number v) = False"
| "divides_by_zero (BinaryOp l op r) =
     (divides_by_zero l
      \<or> (case Eval l of
            Inl err \<Rightarrow> False
          | Inr left \<Rightarrow>
              divides_by_zero r
              \<or> (case Eval r of
                    Inl err \<Rightarrow> False
                  | Inr right \<Rightarrow> Type op = DIV \<and> is_zero right)))"
| "divides_by_zero Other = False"

lemma Eval_div_by_zero: "Eval e = Inl DivisionByZero \<longleftrightarrow> divides_by_zero e"
proof (induction e)
  case (Number v)
  show ?case by simp
next
  case (BinaryOp l op r)
  show ?case
  proof (cases "Eval l")
    case (Inl err)
    then show ?thesis using BinaryOp.IH(1) by auto
  next
    case left: (Inr left)
    show ?thesis
    proof (cases "Eval r")
      case (Inl err)
      then show ?thesis using left BinaryOp.IH by auto
    next
      case (Inr right)
      then show ?thesis using left BinaryOp.IH by (cases "Type op") auto
    qed
  qed
next
  case Other
  show ?case by simp
qed

section \<open>Input texts of the grammar\<close>

text \<open>
  The lexemes of an expression of the grammar are lexemes of a layout, and no two runs of
  digits are neighbours among them, so any white space around them gives a layout.
\<close>

fun apart :: "string list \<Rightarrow> bool" where
  "apart [] = True"
| "apart [x] = True"
| "apart (x # y # xs) = (\<not> (digits x \<and> digits y) \<and> apart (y # xs))"

lemma apart_Cons_symbol: "\<not> digits x \<Longrightarrow> apart xs \<Longrightarrow> apart (x # xs)"
  by (cases xs) auto

lemma apart_append:
  "apart xs \<Longrightarrow> apart ys \<Longrightarrow> ys = [] \<or> \<not> digits (hd ys) \<Longrightarrow> apart (xs @ ys)"
  by (induction xs rule: apart.induct) (auto simp: apart_Cons_symbol intro: apart_Cons_symbol split: list.splits, (cases ys; auto)+)

lemma not_digits_symbols:
  "\<not> digits (addop_lexeme a)" "\<not> digits (mulop_lexeme m)" "\<not> digits ''(''" "\<not> digits '')''"
  by (cases a; cases m; simp add: digits_def IsDigit_def)+

lemma lexeme_symbols:
  "lexeme (addop_lexeme a)" "lexeme (mulop_lexeme m)" "lexeme ''(''" "lexeme '')''"
  by (cases a; cases m; simp add: lexeme_def IsDigit_def IsSpace_def)+

lemma grammar_lexemes:
  "wf_factor f \<Longrightarrow> list_all lexeme (lexemes_factor f) \<and> apart (lexemes_factor f)"
  "wf_term t \<Longrightarrow> list_all lexeme (lexemes_term t) \<and> apart (lexemes_term t)"
  "wf_mtail m \<Longrightarrow> list_all lexeme (lexemes_mtail m) \<and> apart (lexemes_mtail m)
      \<and> (lexemes_mtail m = [] \<or> \<not> digits (hd (lexemes_mtail m)))"
  "wf_expression e \<Longrightarrow> list_all lexeme (lexemes_expression e) \<and> apart (lexemes_expression e)"
  "wf_atail a \<Longrightarrow> list_all lexeme (lexemes_atail a) \<and> apart (lexemes_atail a)
      \<and> (lexemes_atail a = [] \<or> \<not> digits (hd (lexemes_atail a)))"
proof (induction f and t and m and e and a)
  case (Num s)
  then show ?case by (simp add: lexeme_def)
next
  case (Paren e)
  then have "apart (lexemes_expression e @ ['')''])"
    by (intro apart_append) (simp_all add: not_digits_symbols)
  then show ?case using Paren by (simp add: lexeme_symbols apart_Cons_symbol not_digits_symbols)
next
  case (Term f m)
  then show ?case by (simp add: apart_append)
next
  case MNil
  show ?case by simp
next
  case (MCons op f m)
  then have "apart (lexemes_factor f @ lexemes_mtail m)" by (simp add: apart_append)
  then show ?case using MCons by (simp add: lexeme_symbols apart_Cons_symbol not_digits_symbols)
next
  case (Expression t a)
  then show ?case by (simp add: apart_append)
next
  case ANil
  show ?case by simp
next
  case (ACons op t a)
  then have "apart (lexemes_term t @ lexemes_atail a)" by (simp add: apart_append)
  then show ?case using ACons by (simp add: lexeme_symbols apart_Cons_symbol not_digits_symbols)
qed

lemma layout_apart:
  "list_all (\<lambda>p. list_all IsSpace (fst p)) ps \<Longrightarrow> list_all lexeme (map snd ps) \<Longrightarrow>
     apart (map snd ps) \<Longrightarrow> layout ps"
  by (induction ps rule: layout.induct) auto

lemma stop_spaces: "list_all IsSpace fin \<Longrightarrow> stop fin"
  by (induction fin) (simp_all add: stop_def)

lemma grammar_layout:
  assumes "wf_expression e" and "map snd ps = lexemes_expression e"
    and "list_all (\<lambda>p. list_all IsSpace (fst p)) ps"
  shows "layout ps"
  using grammar_lexemes(4) [OF assms(1)] assms(2,3) layout_apart [of ps] by simp

lemma parse_layout:
  assumes "wf_expression e" and "layout ps" and "stop fin"
    and "map snd ps = lexemes_expression e @ xs"
    and "xs = [] \<or> (\<not> is_mulop (token_of (hd xs)) \<and> \<not> is_addop (token_of (hd xs)))"
  shows "\<exists>p'. Parse sc (NewParser (NewLexer (spell ps fin))) = Inr (tree sc (ast_expression e), p')
      \<and> stream p' = map token_of xs @ [\<lparr>Type = EOF, Value = []\<rparr>]"
proof -
  have m: "map (\<lambda>(w, x). token_of x) qs = map token_of (map snd qs)" for qs :: "(string \<times> string) list"
    by (induction qs) auto
  let ?ts = "map token_of xs @ [\<lparr>Type = EOF, Value = []\<rparr>]"
  have "stream (NewParser (NewLexer (spell ps fin)))
      = map token_of (lexemes_expression e) @ ?ts"
    using tokens_layout [OF primed_NewLexer unread_NewLexer assms(2,3)] m assms(4)
    by (simp add: stream_NewParser)
  moreover have "\<not> is_mulop (hd ?ts) \<and> \<not> is_addop (hd ?ts)"
    using assms(5) by (cases xs) (auto simp: is_mulop_def is_addop_def)
  ultimately show ?thesis
    using parser_on_grammar(4) [OF assms(1), of "NewParser (NewLexer (spell ps fin))" ?ts sc]
    by (simp add: Parse_def)
qed

lemma layout_take: "layout ps \<Longrightarrow> layout (take n ps)"
proof (induction ps arbitrary: n rule: layout.induct)
  case 1
  show ?case by simp
next
  case (2 w x)
  then show ?case by (cases n) simp_all
next
  case (3 w x w' x' ps)
  show ?case
  proof (cases n)
    case 0
    then show ?thesis by simp
  next
    case (Suc m)
    have "layout (take m ((w', x') # ps))" using 3 by simp
    then show ?thesis using 3(2) Suc by (cases m) simp_all
  qed
qed

section \<open>Mathematical values\<close>

text \<open>
  \<open>math a\<close> is the value of the expression \<open>a\<close> in exact rational arithmetic, undefined
  when a divisor is zero. \<open>representable q\<close>: the magnitude \<open>q\<close> is a binary64 value (zero,
  or below \<open>2\<^sup>1\<^sup>0\<^sup>2\<^sup>4\<close> and a multiple of its spacing); every natural number up to \<open>2\<^sup>5\<^sup>3\<close> is
  (lemma \<open>representable_small\<close>). \<open>exact a\<close>: every literal of \<open>a\<close> is a digit string
  and every literal and every intermediate result of \<open>a\<close> is representable.
  \<open>encodes v q\<close>: the \<open>float64\<close> \<open>v\<close> is finite and stands for the rational \<open>q\<close>.
\<close>

fun apply_op :: "binop \<Rightarrow> rat \<Rightarrow> rat \<Rightarrow> rat option" where
  "apply_op Plus a b = Some (a + b)"
| "apply_op Minus a b = Some (a - b)"
| "apply_op Times a b = Some (a * b)"
| "apply_op Divide a b = (if b = 0 then None else Some (a / b))"

fun math :: "ast \<Rightarrow> rat option" where
  "math (Lit s) = Some (of_nat (decimal s))"
| "math (Bin l op r) =
     (case math l of
        None \<Rightarrow> None
      | Some a \<Rightarrow> (case math r of None \<Rightarrow> None | Some b \<Rightarrow> apply_op op a b))"

fun exact :: "ast \<Rightarrow> bool" where
  "exact (Lit s) = (digits s \<and> representable (of_nat (decimal s)))"
| "exact (Bin l op r) =
     (exact l \<and> exact r
      \<and> (case math (Bin l op r) of None \<Rightarrow> False | Some q \<Rightarrow> representable \<bar>q\<bar>))"

definition encodes :: "float64 \<Rightarrow> rat \<Rightarrow> bool" where
  "encodes v q = (\<exists>s. v = Finite s \<bar>q\<bar> \<and> (q < 0 \<longrightarrow> s) \<and> (0 < q \<longrightarrow> \<not> s))"

lemma encodesI: "(q < 0 \<Longrightarrow> s) \<Longrightarrow> (0 < q \<Longrightarrow> \<not> s) \<Longrightarrow> encodes (Finite s \<bar>q\<bar>) q"
  unfolding encodes_def by blast

lemma encodesE:
  assumes "encodes v q"
  obtains s where "v = Finite s \<bar>q\<bar>" and "q < 0 \<Longrightarrow> s" and "0 < q \<Longrightarrow> \<not> s"
  using assms unfolding encodes_def by blast

lemma encodes_rat_of: "encodes v q \<Longrightarrow> rat_of v = Some q"
proof (erule encodesE)
  fix s
  assume v: "v = Finite s \<bar>q\<bar>" and n: "q < 0 \<Longrightarrow> s" and p: "0 < q \<Longrightarrow> \<not> s"
  have "signed s \<bar>q\<bar> = q"
  proof (cases "q = 0")
    case True
    then show ?thesis by (simp add: signed_def)
  next
    case False
    then consider "q < 0" | "0 < q" by linarith
    then show ?thesis
    proof cases
      case 1
      then show ?thesis using n by (simp add: signed_def)
    next
      case 2
      then show ?thesis using p by (simp add: signed_def)
    qed
  qed
  then show ?thesis using v by simp
qed

lemma encodes_round64: "representable \<bar>q\<bar> \<Longrightarrow> encodes (round64 (q < 0) \<bar>q\<bar>) q"
  by (simp add: round64_exact encodesI)

lemma parseNumber_exact:
  "digits s \<Longrightarrow> representable (of_nat (decimal s)) \<Longrightarrow>
     parseNumber sc s = Finite False (of_nat (decimal s))"
  by (simp add: parseNumber_def Sscanf_f_def digits_def round64_exact)

lemma fadd_exact:
  assumes "encodes va a" and "encodes vb b" and "representable \<bar>a + b\<bar>"
  shows "encodes (fadd va vb) (a + b)"
proof -
  obtain s where va: "va = Finite s \<bar>a\<bar>" and s: "a < 0 \<longrightarrow> s" "0 < a \<longrightarrow> \<not> s"
    using assms(1) unfolding encodes_def by blast
  obtain t where vb: "vb = Finite t \<bar>b\<bar>" and t: "b < 0 \<longrightarrow> t" "0 < b \<longrightarrow> \<not> t"
    using assms(2) unfolding encodes_def by blast
  have sa: "signed s \<bar>a\<bar> = a" using encodes_rat_of [OF assms(1)] va by simp
  have sb: "signed t \<bar>b\<bar> = b" using encodes_rat_of [OF assms(2)] vb by simp
  have f: "fadd va vb = (if a + b = 0 then Finite (s \<and> t) 0 else round64 (a + b < 0) \<bar>a + b\<bar>)"
    by (simp add: va vb sa sb Let_def)
  show ?thesis
  proof (cases "a + b = 0")
    case True
    have "encodes (Finite (s \<and> t) \<bar>a + b\<bar>) (a + b)" by (rule encodesI) (simp_all add: True)
    then show ?thesis using True f by simp
  next
    case False
    then show ?thesis using f encodes_round64 [OF assms(3)] by simp
  qed
qed

lemma fneg_exact: "encodes v q \<Longrightarrow> encodes (fneg v) (- q)"
proof (erule encodesE)
  fix s
  assume v: "v = Finite s \<bar>q\<bar>" and n: "q < 0 \<Longrightarrow> s" and p: "0 < q \<Longrightarrow> \<not> s"
  have "encodes (Finite (\<not> s) \<bar>- q\<bar>) (- q)" by (rule encodesI) (use n p in auto)
  then show ?thesis using v by simp
qed

lemma fsub_exact:
  assumes "encodes va a" and "encodes vb b" and "representable \<bar>a - b\<bar>"
  shows "encodes (fsub va vb) (a - b)"
proof -
  have r: "representable \<bar>a + - b\<bar>" using assms(3) by simp
  have "encodes (fadd va (fneg vb)) (a + - b)"
    by (rule fadd_exact [OF assms(1) fneg_exact [OF assms(2)] r])
  then show ?thesis by (simp add: fsub_def)
qed

lemma fmul_exact:
  assumes "encodes va a" and "encodes vb b" and "representable \<bar>a * b\<bar>"
  shows "encodes (fmul va vb) (a * b)"
proof -
  obtain s where va: "va = Finite s \<bar>a\<bar>" and s: "a < 0 \<longrightarrow> s" "0 < a \<longrightarrow> \<not> s"
    using assms(1) unfolding encodes_def by blast
  obtain t where vb: "vb = Finite t \<bar>b\<bar>" and t: "b < 0 \<longrightarrow> t" "0 < b \<longrightarrow> \<not> t"
    using assms(2) unfolding encodes_def by blast
  have "fmul va vb = round64 (s \<noteq> t) \<bar>a * b\<bar>" by (simp add: va vb abs_mult)
  also have "\<dots> = Finite (s \<noteq> t) \<bar>a * b\<bar>" by (rule round64_exact [OF assms(3)])
  finally have f: "fmul va vb = Finite (s \<noteq> t) \<bar>a * b\<bar>" .
  have "encodes (Finite (s \<noteq> t) \<bar>a * b\<bar>) (a * b)"
  proof (rule encodesI)
    assume "a * b < 0"
    then show "s \<noteq> t" using s t by (auto simp: mult_less_0_iff)
  next
    assume "0 < a * b"
    then show "\<not> (s \<noteq> t)" using s t by (auto simp: zero_less_mult_iff)
  qed
  then show ?thesis using f by simp
qed

lemma fdiv_exact:
  assumes "encodes va a" and "encodes vb b" and "b \<noteq> 0" and "representable \<bar>a / b\<bar>"
  shows "encodes (fdiv va vb) (a / b)" and "\<not> is_zero vb"
proof -
  obtain s where va: "va = Finite s \<bar>a\<bar>" and s: "a < 0 \<longrightarrow> s" "0 < a \<longrightarrow> \<not> s"
    using assms(1) unfolding encodes_def by blast
  obtain t where vb: "vb = Finite t \<bar>b\<bar>" and t: "b < 0 \<longrightarrow> t" "0 < b \<longrightarrow> \<not> t"
    using assms(2) unfolding encodes_def by blast
  show "\<not> is_zero vb" using vb assms(3) by simp
  have "fdiv va vb = round64 (s \<noteq> t) \<bar>a / b\<bar>" using assms(3) by (simp add: va vb)
  also have "\<dots> = Finite (s \<noteq> t) \<bar>a / b\<bar>" by (rule round64_exact [OF assms(4)])
  finally have f: "fdiv va vb = Finite (s \<noteq> t) \<bar>a / b\<bar>" .
  have "encodes (Finite (s \<noteq> t) \<bar>a / b\<bar>) (a / b)"
  proof (rule encodesI)
    assume "a / b < 0"
    then show "s \<noteq> t" using s t by (auto simp: divide_less_0_iff)
  next
    assume "0 < a / b"
    then show "\<not> (s \<noteq> t)" using s t by (auto simp: zero_less_divide_iff)
  qed
  then show "encodes (fdiv va vb) (a / b)" using f by simp
qed

lemma Eval_exact:
  "exact a \<Longrightarrow> \<exists>q v. math a = Some q \<and> Eval (tree sc a) = Inr v \<and> encodes v q"
proof (induction a)
  case (Lit s)
  then have "Eval (tree sc (Lit s)) = Inr (Finite False \<bar>of_nat (decimal s)\<bar>)"
    by (simp add: parseNumber_exact)
  moreover have "encodes (Finite False \<bar>of_nat (decimal s)\<bar>) (of_nat (decimal s))"
    by (rule encodesI) simp_all
  ultimately show ?case by simp
next
  case (Bin l op r)
  from Bin.prems have el: "exact l" and er: "exact r" by simp_all
  obtain a va where l: "math l = Some a" "Eval (tree sc l) = Inr va" "encodes va a"
    using Bin.IH(1) [OF el] by auto
  obtain b vb where r: "math r = Some b" "Eval (tree sc r) = Inr vb" "encodes vb b"
    using Bin.IH(2) [OF er] by auto
  show ?case
  proof (cases op)
    case Plus
    then show ?thesis using Bin.prems l r fadd_exact [OF l(3) r(3)] by simp
  next
    case Minus
    then show ?thesis using Bin.prems l r fsub_exact [OF l(3) r(3)] by simp
  next
    case Times
    then show ?thesis using Bin.prems l r fmul_exact [OF l(3) r(3)] by simp
  next
    case Divide
    then have nz: "b \<noteq> 0" using Bin.prems l r by (auto split: if_splits)
    then show ?thesis using Divide Bin.prems l r fdiv_exact [OF l(3) r(3) nz] by simp
  qed
qed

lemma representable_small:
  assumes "n \<le> 2 ^ 53"
  shows "representable (of_nat n)"
proof (cases "n = 0")
  case True
  then show ?thesis by (simp add: representable_def)
next
  case False
  let ?q = "of_nat n :: rat"
  let ?e = "ilog2 ?q"
  have q: "0 < ?q" "1 \<le> ?q" using False by simp_all
  have up: "?q \<le> 2 ^ 53" using assms by (metis of_nat_le_iff of_nat_numeral of_nat_power)
  have "pow2 0 < pow2 (?e + 1)" using ilog2_bounds(2) [OF q(1)] q(2) by (simp add: pow2_def)
  then have e0: "0 \<le> ?e" using pow2_less_cancel [of 0 "?e + 1"] by simp
  have "pow2 ?e < pow2 54" using ilog2_bounds(1) [OF q(1)] up by (simp add: pow2_def)
  then have e53: "?e \<le> 53" using pow2_less_cancel [of ?e 54] by simp
  have u: "ulp ?q = pow2 (?e - 52)" using e0 by (simp add: ulp_def max_def)
  have "pow2 (?e - 52) * pow2 (52 - ?e) = 1" using pow2_add [of "?e - 52" "52 - ?e"] by (simp add: pow2_def)
  then have d: "?q / ulp ?q = ?q * pow2 (52 - ?e)" using u pow2_pos [of "?e - 52"]
    by (simp add: field_simps)
  have "\<exists>k. ?q / ulp ?q = of_int k"
  proof (cases "?e \<le> 52")
    case True
    then have "?q * pow2 (52 - ?e) = of_int (int n * 2 ^ nat (52 - ?e))" by (simp add: pow2_def)
    then show ?thesis using d by metis
  next
    case False
    then have e: "?e = 53" using e53 by simp
    have "pow2 53 \<le> ?q" using ilog2_bounds(1) [OF q(1)] e by simp
    then have "?q = 2 ^ 53" using up by (simp add: pow2_def)
    then have "?q / ulp ?q = of_int (2 ^ 52)" using u e by (simp add: pow2_def)
    then show ?thesis by metis
  qed
  then obtain k where "?q / ulp ?q = of_int k" by blast
  then have "of_int \<lfloor>?q / ulp ?q\<rfloor> = ?q / ulp ?q" by simp
  moreover have "?q < pow2 1024" using up by (simp add: pow2_def)
  ultimately show ?thesis using q by (simp add: representable_def)
qed

section \<open>Large numerals\<close>

lemma foldl_zeros:
  "foldl (\<lambda>n c. 10 * n + (of_char c - 48)) (a::nat) (replicate k (CHR ''0'')) = a * 10 ^ k"
  by (induction k arbitrary: a) simp_all

lemma decimal_append_zeros: "decimal (s @ replicate n (CHR ''0'')) = decimal s * 10 ^ n"
  by (simp add: decimal_def foldl_zeros)

section \<open>Where the parser fails\<close>

text \<open>
  The parser raises its two errors in \<open>parseFactor\<close> only. \<open>failure_at t err\<close>: the
  error \<open>err\<close> is the one \<open>parseFactor\<close> raises on the current token \<open>t\<close>, either at the
  start of a factor (\<open>t\<close> is neither a number nor an opening parenthesis, and the error
  names its type) or after the expression in parentheses (\<open>t\<close> is not the closing
  parenthesis). \<open>consumed p r\<close>: the outcome \<open>r\<close> of a parse function on \<open>p\<close> is a parser
  that holds a rest of the token stream of \<open>p\<close>, or an error raised at a token of that
  stream.
\<close>

definition failure_at :: "Token \<Rightarrow> error \<Rightarrow> bool" where
  "failure_at t err =
     ((Type t \<noteq> NUMBER \<and> Type t \<noteq> LPAREN \<and> err = ExpectedNumberOrParen (Type t))
      \<or> (Type t \<noteq> RPAREN \<and> err = ExpectedClosingParen))"

fun consumed :: "Parser \<Rightarrow> error + Expr \<times> Parser \<Rightarrow> bool" where
  "consumed p (Inr (e, p')) = (\<exists>ts. stream p = ts @ stream p')"
| "consumed p (Inl err) = (\<exists>ts t us. stream p = ts @ t # us \<and> failure_at t err)"

declare consumed.simps [simp del]

lemma stream_unfold: "Type (curr p) \<noteq> EOF \<Longrightarrow> stream p = curr p # stream (nextToken p)"
  using stream_nextToken [of p] hd_stream [of p] stream_nonempty [of p]
  by (cases "stream p") simp_all

lemma consumed_trans: "stream p = ts @ stream p1 \<Longrightarrow> consumed p1 r \<Longrightarrow> consumed p r"
proof (cases r)
  case (Inl err)
  assume a: "stream p = ts @ stream p1" and c: "consumed p1 r"
  from c Inl obtain ts' t us where "stream p1 = ts' @ t # us" "failure_at t err"
    by (auto simp: consumed.simps)
  then have "stream p = (ts @ ts') @ t # us \<and> failure_at t err" using a by simp
  then show ?thesis unfolding Inl consumed.simps by blast
next
  case (Inr x)
  assume a: "stream p = ts @ stream p1" and c: "consumed p1 r"
  obtain e p' where x: "x = (e, p')" by (cases x)
  from c Inr x obtain ts' where "stream p1 = ts' @ stream p'"
    by (auto simp: consumed.simps)
  then have "stream p = (ts @ ts') @ stream p'" using a by simp
  then show ?thesis unfolding Inr x consumed.simps by blast
qed

lemma consumed_next:
  "Type (curr p) \<noteq> EOF \<Longrightarrow> consumed (nextToken p) r \<Longrightarrow> consumed p r"
  using consumed_trans [of p "[curr p]" "nextToken p" r] stream_unfold [of p] by simp

lemma consumed_refl: "consumed p (Inr (e, p))"
  by (simp add: consumed.simps)

lemma parser_consumed:
  "consumed p (parseExpr sc p)"
  "consumed p (parseExprLoop sc left p)"
  "consumed p (parseTerm sc p)"
  "consumed p (parseTermLoop sc left p)"
  "consumed p (parseFactor sc p)"
proof (induction sc p and sc left p and sc p and sc left p and sc p rule: parser_induct)
  case (1 sc p)
  show ?case
  proof (cases "parseTerm sc p")
    case (Inl err)
    then show ?thesis using 1(1) by (simp add: parseExpr.simps)
  next
    case (Inr r)
    obtain left p1 where r: "r = (left, p1)" by (cases r)
    obtain ts where s: "stream p = ts @ stream p1" using 1(1) Inr r by (auto simp: consumed.simps)
    have "consumed p (parseExprLoop sc left p1)"
      by (rule consumed_trans [OF s 1(2) [OF Inr r [symmetric]]])
    then show ?thesis using Inr r by (simp add: parseExpr.simps)
  qed
next
  case (2 sc left p)
  show ?case
  proof (cases "Type (curr p) = PLUS \<or> Type (curr p) = MINUS")
    case True
    then have ne: "Type (curr p) \<noteq> EOF" by auto
    show ?thesis
    proof (cases "parseTerm sc (nextToken p)")
      case (Inl err)
      then have "consumed (nextToken p) (Inl err)" using 2(1) [OF True] by simp
      then have "consumed p (Inl err)" by (rule consumed_next [OF ne])
      then show ?thesis using True Inl by (simp add: parseExprLoop.simps [of sc left p])
    next
      case (Inr r)
      obtain right p2 where r: "r = (right, p2)" by (cases r)
      obtain ts where s: "stream (nextToken p) = ts @ stream p2" using 2(1) [OF True] Inr r by (auto simp: consumed.simps)
      have "consumed (nextToken p) (parseExprLoop sc (BinaryOp left (curr p) right) p2)"
        by (rule consumed_trans [OF s 2(2) [OF True Inr r [symmetric]]])
      then have "consumed p (parseExprLoop sc (BinaryOp left (curr p) right) p2)"
        by (rule consumed_next [OF ne])
      then show ?thesis using True Inr r by (simp add: parseExprLoop.simps [of sc left p])
    qed
  next
    case False
    then show ?thesis by (simp add: parseExprLoop.simps [of sc left p] consumed_refl)
  qed
next
  case (3 sc p)
  show ?case
  proof (cases "parseFactor sc p")
    case (Inl err)
    then show ?thesis using 3(1) by (simp add: parseTerm.simps)
  next
    case (Inr r)
    obtain left p1 where r: "r = (left, p1)" by (cases r)
    obtain ts where s: "stream p = ts @ stream p1" using 3(1) Inr r by (auto simp: consumed.simps)
    have "consumed p (parseTermLoop sc left p1)"
      by (rule consumed_trans [OF s 3(2) [OF Inr r [symmetric]]])
    then show ?thesis using Inr r by (simp add: parseTerm.simps)
  qed
next
  case (4 sc left p)
  show ?case
  proof (cases "Type (curr p) = MULT \<or> Type (curr p) = DIV")
    case True
    then have ne: "Type (curr p) \<noteq> EOF" by auto
    show ?thesis
    proof (cases "parseFactor sc (nextToken p)")
      case (Inl err)
      then have "consumed (nextToken p) (Inl err)" using 4(1) [OF True] by simp
      then have "consumed p (Inl err)" by (rule consumed_next [OF ne])
      then show ?thesis using True Inl by (simp add: parseTermLoop.simps [of sc left p])
    next
      case (Inr r)
      obtain right p2 where r: "r = (right, p2)" by (cases r)
      obtain ts where s: "stream (nextToken p) = ts @ stream p2" using 4(1) [OF True] Inr r by (auto simp: consumed.simps)
      have "consumed (nextToken p) (parseTermLoop sc (BinaryOp left (curr p) right) p2)"
        by (rule consumed_trans [OF s 4(2) [OF True Inr r [symmetric]]])
      then have "consumed p (parseTermLoop sc (BinaryOp left (curr p) right) p2)"
        by (rule consumed_next [OF ne])
      then show ?thesis using True Inr r by (simp add: parseTermLoop.simps [of sc left p])
    qed
  next
    case False
    then show ?thesis by (simp add: parseTermLoop.simps [of sc left p] consumed_refl)
  qed
next
  case (5 sc p)
  show ?case
  proof (cases "Type (curr p) = NUMBER")
    case True
    then have "stream p = [curr p] @ stream (nextToken p)" using stream_unfold [of p] by simp
    then have "consumed p (Inr (Number (parseNumber sc (Value (curr p))), nextToken p))"
      unfolding consumed.simps by blast
    then show ?thesis using True by (simp add: parseFactor.simps [of sc p])
  next
    case nn: False
    show ?thesis
    proof (cases "Type (curr p) = LPAREN")
      case True
      then have ne: "Type (curr p) \<noteq> EOF" by simp
      show ?thesis
      proof (cases "parseExpr sc (nextToken p)")
        case (Inl err)
        then have "consumed (nextToken p) (Inl err)" using 5 [OF nn True] by simp
        then have "consumed p (Inl err)" by (rule consumed_next [OF ne])
        then show ?thesis using True Inl by (simp add: parseFactor.simps [of sc p])
      next
        case (Inr r)
        obtain expr p2 where r: "r = (expr, p2)" by (cases r)
        obtain ts where s: "stream (nextToken p) = ts @ stream p2" using 5 [OF nn True] Inr r by (auto simp: consumed.simps)
        show ?thesis
        proof (cases "Type (curr p2) = RPAREN")
          case rp: True
          then have "stream p2 = [curr p2] @ stream (nextToken p2)" using stream_unfold [of p2] by simp
          then have "consumed p2 (Inr (expr, nextToken p2))" unfolding consumed.simps by blast
          then have "consumed (nextToken p) (Inr (expr, nextToken p2))" by (rule consumed_trans [OF s])
          then have "consumed p (Inr (expr, nextToken p2))" by (rule consumed_next [OF ne])
          then show ?thesis using True Inr r rp by (simp add: parseFactor.simps [of sc p])
        next
          case False
          have "stream p2 = [] @ curr p2 # tl (stream p2)"
            using hd_stream [of p2] stream_nonempty [of p2] by (cases "stream p2") simp_all
          then have "consumed p2 (Inl ExpectedClosingParen)"
            using False unfolding consumed.simps failure_at_def by blast
          then have "consumed (nextToken p) (Inl ExpectedClosingParen)" by (rule consumed_trans [OF s])
          then have "consumed p (Inl ExpectedClosingParen)" by (rule consumed_next [OF ne])
          then show ?thesis using True Inr r False by (simp add: parseFactor.simps [of sc p])
        qed
      qed
    next
      case False
      have "stream p = [] @ curr p # tl (stream p)"
        using hd_stream [of p] stream_nonempty [of p] by (cases "stream p") simp_all
      then have "consumed p (Inl (ExpectedNumberOrParen (Type (curr p))))"
        using nn False unfolding consumed.simps failure_at_def by blast
      then show ?thesis using nn False by (simp add: parseFactor.simps [of sc p])
    qed
  qed
qed

lemma invalid_in_parentheses:
  assumes "wf_expression e"
    and "stream q = \<lparr>Type = LPAREN, Value = ''(''\<rparr> # map token_of (lexemes_expression e) @ t # ts"
    and "Type t = INVALID"
  shows "parseFactor sc q = Inl ExpectedClosingParen" and "Parse sc q = Inl ExpectedClosingParen"
proof -
  have c: "curr q = \<lparr>Type = LPAREN, Value = ''(''\<rparr>" using assms(2) by (rule stream_Cons)
  have s1: "stream (nextToken q) = map token_of (lexemes_expression e) @ t # ts"
    using stream_step [OF assms(2)] by simp
  obtain p2 where e: "parseExpr sc (nextToken q) = Inr (tree sc (ast_expression e), p2)"
    and s2: "stream p2 = t # ts"
    using parser_on_grammar(4) [OF assms(1) s1] assms(3) by (auto simp: is_mulop_def is_addop_def)
  have "curr p2 = t" using s2 by (rule stream_Cons)
  then show f: "parseFactor sc q = Inl ExpectedClosingParen"
    using c e assms(3) by (simp add: parseFactor.simps [of sc q])
  then show "Parse sc q = Inl ExpectedClosingParen"
    by (simp add: Parse_def parseExpr.simps [of sc q] parseTerm.simps [of sc q])
qed

section \<open>Evaluation on concrete inputs\<close>

text \<open>The defining equations that the simplifier unfolds to run the code on a concrete input.\<close>

lemmas lex_eval = NewLexer_def readChar_def skipSpace.simps readDigits.simps readNumber_def
  NextToken_def IsSpace_def IsDigit_def utf8_def Let_def

lemmas parse_eval = NewParser_def nextToken_def Parse_def parseExpr.simps parseExprLoop.simps
  parseTerm.simps parseTermLoop.simps parseFactor.simps

lemma floor_rat_numeral: "\<lfloor>(numeral a :: rat) / numeral b\<rfloor> = numeral a div numeral b"
  using floor_divide_of_int_eq [of "numeral a" "numeral b", where ?'a = rat] by simp

lemma ceiling_rat_numeral: "\<lceil>(numeral a :: rat) / numeral b\<rceil> = - (- numeral a div numeral b)"
  using ceiling_divide_eq_div [of "numeral a" "numeral b", where ?'a = rat] by simp

lemmas num_eval = parseNumber_def Sscanf_f_def decimal_def round64_def ulp_def ilog2_def pow2_def
  rne_def compute_bitlen signed_def fsub_def floor_rat_numeral ceiling_rat_numeral

lemmas spec_eval = digits_def lexeme_def stop_def representable_def

lemmas stream_eval = stream_def tokens.simps

section \<open>The claims\<close>

text \<open>
  Claim C1, as amended. For every expression of the grammar and every input text that
  spells its lexemes with any white space before, between and after them, \<open>Parse\<close>
  succeeds and returns the tree of the expression in which \<open>*\<close> and \<open>/\<close> bind tighter
  than \<open>+\<close> and \<open>-\<close> and the operators of one level associate from left to right, with
  every numeral converted by \<open>parseNumber\<close>; the run returns what \<open>Eval\<close> returns on that
  tree. Whenever every literal and every intermediate result is exactly representable as
  a \<open>float64\<close> and no divisor is zero (so for every computation on integers that stays
  within \<open>2\<^sup>5\<^sup>3\<close>), the run returns a value and it is the mathematically correct one.
\<close>

theorem grammar_evaluation:
  assumes "wf_expression e" and "map snd ps = lexemes_expression e"
    and "list_all (\<lambda>p. list_all IsSpace (fst p)) ps" and "list_all IsSpace fin"
  shows "map_sum id fst (Parse sc (NewParser (NewLexer (spell ps fin))))
           = Inr (tree sc (ast_expression e))
     \<and> run sc (spell ps fin) = Eval (tree sc (ast_expression e))
     \<and> (exact (ast_expression e) \<longrightarrow>
          (\<exists>q v. math (ast_expression e) = Some q \<and> run sc (spell ps fin) = Inr v
             \<and> rat_of v = Some q))
     \<and> (\<forall>n. n \<le> 2 ^ 53 \<longrightarrow> representable (of_nat n))"
proof -
  have l: "layout ps" by (rule grammar_layout [OF assms(1,2,3)])
  have s: "stop fin" by (rule stop_spaces [OF assms(4)])
  obtain p' where p: "Parse sc (NewParser (NewLexer (spell ps fin))) = Inr (tree sc (ast_expression e), p')"
    using parse_layout [OF assms(1) l s, of "[]" sc] assms(2) by auto
  then have r: "run sc (spell ps fin) = Eval (tree sc (ast_expression e))" by (simp add: run_def)
  have "exact (ast_expression e) \<longrightarrow>
          (\<exists>q v. math (ast_expression e) = Some q \<and> run sc (spell ps fin) = Inr v
             \<and> rat_of v = Some q)"
    using Eval_exact [of "ast_expression e" sc] r by (auto dest: encodes_rat_of)
  then show ?thesis using p r representable_small by simp
qed

theorem grammar_evaluation_witness:
  "run (\<lambda>s. None) ''2 + 3 * 4'' = Inr (Finite False 14)
   \<and> run (\<lambda>s. None) ''10 - 2 - 3'' = Inr (Finite False 5)
   \<and> run (\<lambda>s. None) ''(2 + 3) * 5'' = Inr (Finite False 25)
   \<and> math (ast_expression (Expression (Term (Num ''2'') MNil)
         (ACons Add (Term (Num ''3'') (MCons Mul (Num ''4'') MNil)) ANil))) = Some 14
   \<and> math (ast_expression (Expression (Term (Num ''10'') MNil)
         (ACons Sub (Term (Num ''2'') MNil) (ACons Sub (Term (Num ''3'') MNil) ANil)))) = Some 5
   \<and> math (ast_expression (Expression (Term (Paren (Expression (Term (Num ''2'') MNil)
         (ACons Add (Term (Num ''3'') MNil) ANil))) (MCons Mul (Num ''5'') MNil)) ANil)) = Some 25"
proof -
  let ?e1 = "Expression (Term (Num ''2'') MNil)
         (ACons Add (Term (Num ''3'') (MCons Mul (Num ''4'') MNil)) ANil)"
  let ?p1 = "[([], ''2''), ('' '', ''+''), ('' '', ''3''), ('' '', ''*''), ('' '', ''4'')]"
  let ?e2 = "Expression (Term (Num ''10'') MNil)
         (ACons Sub (Term (Num ''2'') MNil) (ACons Sub (Term (Num ''3'') MNil) ANil))"
  let ?p2 = "[([], ''10''), ('' '', ''-''), ('' '', ''2''), ('' '', ''-''), ('' '', ''3'')]"
  let ?e3 = "Expression (Term (Paren (Expression (Term (Num ''2'') MNil)
         (ACons Add (Term (Num ''3'') MNil) ANil))) (MCons Mul (Num ''5'') MNil)) ANil"
  let ?p3 = "[([], ''(''), ([], ''2''), ('' '', ''+''), ('' '', ''3''), ([], '')''), ('' '', ''*''), ('' '', ''5'')]"
  have w: "wf_expression ?e1" "wf_expression ?e2" "wf_expression ?e3"
    by (simp_all add: spec_eval IsDigit_def)
  have m: "map snd ?p1 = lexemes_expression ?e1" "map snd ?p2 = lexemes_expression ?e2"
    "map snd ?p3 = lexemes_expression ?e3" by simp_all
  have s: "list_all (\<lambda>p. list_all IsSpace (fst p)) ?p1" "list_all (\<lambda>p. list_all IsSpace (fst p)) ?p2"
    "list_all (\<lambda>p. list_all IsSpace (fst p)) ?p3" by (simp_all add: IsSpace_def)
  have f: "list_all IsSpace []" by simp
  have x: "exact (ast_expression ?e1)" "exact (ast_expression ?e2)" "exact (ast_expression ?e3)"
    by (simp_all add: spec_eval num_eval IsDigit_def)
  show ?thesis
    using grammar_evaluation [OF w(1) m(1) s(1) f, of "\<lambda>s. None"]
      grammar_evaluation [OF w(2) m(2) s(2) f, of "\<lambda>s. None"]
      grammar_evaluation [OF w(3) m(3) s(3) f, of "\<lambda>s. None"] x
    by (simp add: decimal_def) (simp add: run_def lex_eval parse_eval num_eval)
qed

text \<open>
  Claim C1 as it was stated fails. The numeral \<open>9007199254740993\<close> (\<open>2\<^sup>5\<^sup>3 + 1\<close>) is an
  expression of the grammar whose value is itself, and the run returns
  \<open>9007199254740992\<close>: the conversion rounds to the nearest \<open>float64\<close>. And \<open>1 / 0\<close> is an
  expression of the grammar on which the run returns the division-by-zero error, not a
  value.
\<close>

theorem grammar_evaluation_counterexample:
  "wf_expression (Expression (Term (Num ''9007199254740993'') MNil) ANil)
   \<and> lexemes_expression (Expression (Term (Num ''9007199254740993'') MNil) ANil) = [''9007199254740993'']
   \<and> math (ast_expression (Expression (Term (Num ''9007199254740993'') MNil) ANil))
       = Some 9007199254740993
   \<and> run (\<lambda>s. None) ''9007199254740993'' = Inr (Finite False 9007199254740992)
   \<and> rat_of (Finite False 9007199254740992) \<noteq> Some 9007199254740993
   \<and> wf_expression (Expression (Term (Num ''1'') (MCons Quo (Num ''0'') MNil)) ANil)
   \<and> lexemes_expression (Expression (Term (Num ''1'') (MCons Quo (Num ''0'') MNil)) ANil)
       = [''1'', ''/'', ''0'']
   \<and> run (\<lambda>s. None) ''1 / 0'' = Inl DivisionByZero"
  by (simp add: spec_eval IsDigit_def decimal_def signed_def)
     (simp add: run_def lex_eval parse_eval num_eval)

text \<open>
  Claim C2. For every expression tree, \<open>Eval\<close> returns the division-by-zero error if
  and only if the evaluation reaches a division node whose right operand evaluates to a
  zero; then no value is returned. The test is an exact comparison with zero: it holds of
  \<open>+0\<close> and \<open>-0\<close> and of nothing else, however small. The run on \<open>"1 / 0"\<close> gives that
  error.
\<close>

theorem division_by_zero_error:
  "(Eval e = Inl DivisionByZero \<longleftrightarrow> divides_by_zero e)
   \<and> (divides_by_zero e \<longrightarrow> (\<forall>v. Eval e \<noteq> Inr v))
   \<and> Eval (BinaryOp (Number a) \<lparr>Type = DIV, Value = ''/''\<rparr> (Number b))
       = (if is_zero b then Inl DivisionByZero else Inr (fdiv a b))
   \<and> (is_zero b \<longleftrightarrow> b = Finite False 0 \<or> b = Finite True 0)
   \<and> run sc ''1 / 0'' = Inl DivisionByZero"
proof -
  have "divides_by_zero e \<longrightarrow> (\<forall>v. Eval e \<noteq> Inr v)"
    using Eval_div_by_zero [of e] by auto
  moreover have "is_zero b \<longleftrightarrow> b = Finite False 0 \<or> b = Finite True 0"
    by (cases b) auto
  moreover have "run sc ''1 / 0'' = Inl DivisionByZero"
    by (simp add: run_def lex_eval parse_eval num_eval)
  ultimately show ?thesis using Eval_div_by_zero [of e] by simp
qed

theorem division_by_zero_error_witness:
  "divides_by_zero (BinaryOp (Number (Finite False 1)) \<lparr>Type = DIV, Value = ''/''\<rparr> (Number (Finite True 0)))
   \<and> Eval (BinaryOp (Number (Finite False 1)) \<lparr>Type = DIV, Value = ''/''\<rparr> (Number (Finite True 0)))
       = Inl DivisionByZero
   \<and> \<not> divides_by_zero (BinaryOp (Number (Finite False 1)) \<lparr>Type = DIV, Value = ''/''\<rparr>
         (Number (Finite False (1 / 1152921504606846976))))
   \<and> Eval (BinaryOp (Number (Finite False 1)) \<lparr>Type = DIV, Value = ''/''\<rparr>
         (Number (Finite False (1 / 1152921504606846976))))
       = Inr (Finite False 1152921504606846976)
   \<and> run (\<lambda>s. None) ''1 / (1 / 1152921504606846976)'' = Inr (Finite False 1152921504606846976)"
  using division_by_zero_error [of "BinaryOp (Number (Finite False 1)) \<lparr>Type = DIV, Value = ''/''\<rparr> (Number (Finite True 0))"
      "Finite False 1" "Finite True 0" "\<lambda>s. None"]
    division_by_zero_error [of "BinaryOp (Number (Finite False 1)) \<lparr>Type = DIV, Value = ''/''\<rparr>
         (Number (Finite False (1 / 1152921504606846976)))" "Finite False 1" "Finite False (1 / 1152921504606846976)" "\<lambda>s. None"]
  by (simp add: run_def lex_eval parse_eval num_eval)

text \<open>
  Claim C3, as amended. When the lookahead is not white space, not a digit, not the
  sentinel and none of \<open>+ - * / ( )\<close>, \<open>NextToken\<close> returns an \<open>INVALID\<close> token whose
  payload is \<open>"Invalid character: "\<close> followed by the character (\<open>%c\<close> writes its UTF-8
  encoding, the byte itself for ASCII), and the lexer has advanced past it by one
  \<open>readChar\<close>. The parser fails on an \<open>INVALID\<close> token in \<open>parseFactor\<close> only, in two
  places: as the current token at the start of a factor, with the error that names the
  token type, and as the current token after the expression of a parenthesised factor,
  where the closing parenthesis is required, with the missing-closing-parenthesis error.
  The two operator loops return their running result and leave the token where it is, so
  \<open>Parse\<close> on the tokens of an expression of the grammar followed by an \<open>INVALID\<close> token
  succeeds with the tree of that expression. Every error of \<open>Parse\<close> is raised at a token
  of the stream in one of the two places.
\<close>

theorem invalid_character_token:
  "(\<not> IsSpace (ch l) \<and> \<not> IsDigit (ch l) \<and> ch l \<noteq> CHR 0x00 \<and> ch l \<notin> set ''+-*/()'' \<longrightarrow>
      NextToken l = (\<lparr>Type = INVALID, Value = ''Invalid character: '' @ utf8 (ch l)\<rparr>, readChar l)
      \<and> (of_char (ch l) < (128::nat) \<longrightarrow> utf8 (ch l) = [ch l])
      \<and> pos (readChar l) = pos l + 1)
   \<and> (Type (curr p) = INVALID \<longrightarrow>
        parseFactor sc p = Inl (ExpectedNumberOrParen INVALID)
        \<and> parseTermLoop sc left p = Inr (left, p)
        \<and> parseExprLoop sc left p = Inr (left, p))
   \<and> (wf_expression e \<and> stream q = map token_of (lexemes_expression e) @ t # ts
        \<and> Type t = INVALID \<longrightarrow>
        (\<exists>q'. Parse sc q = Inr (tree sc (ast_expression e), q') \<and> stream q' = t # ts))
   \<and> (wf_expression e2
        \<and> stream q2 = \<lparr>Type = LPAREN, Value = ''(''\<rparr> # map token_of (lexemes_expression e2) @ t2 # ts2
        \<and> Type t2 = INVALID \<longrightarrow>
        parseFactor sc q2 = Inl ExpectedClosingParen \<and> Parse sc q2 = Inl ExpectedClosingParen)
   \<and> (Parse sc r = Inl err \<longrightarrow>
        (\<exists>us u vs. stream r = us @ u # vs
           \<and> ((Type u \<noteq> NUMBER \<and> Type u \<noteq> LPAREN \<and> err = ExpectedNumberOrParen (Type u))
                \<or> (Type u \<noteq> RPAREN \<and> err = ExpectedClosingParen))))"
proof (intro conjI impI)
  assume a: "\<not> IsSpace (ch l) \<and> \<not> IsDigit (ch l) \<and> ch l \<noteq> CHR 0x00 \<and> ch l \<notin> set ''+-*/()''"
  then have "skipSpace l = l" by (subst skipSpace.simps) simp
  then show "NextToken l
      = (\<lparr>Type = INVALID, Value = ''Invalid character: '' @ utf8 (ch l)\<rparr>, readChar l)"
    using a by (simp add: NextToken_def Let_def)
  show "pos (readChar l) = pos l + 1" by (simp add: pos_readChar)
next
  assume "of_char (ch l) < (128::nat)"
  then show "utf8 (ch l) = [ch l]" by (simp add: utf8_def)
next
  assume "Type (curr p) = INVALID"
  then show "parseFactor sc p = Inl (ExpectedNumberOrParen INVALID)"
    and "parseTermLoop sc left p = Inr (left, p)"
    and "parseExprLoop sc left p = Inr (left, p)"
    by (simp_all add: parseFactor.simps parseTermLoop.simps parseExprLoop.simps)
next
  assume a: "wf_expression e \<and> stream q = map token_of (lexemes_expression e) @ t # ts
      \<and> Type t = INVALID"
  then show "\<exists>q'. Parse sc q = Inr (tree sc (ast_expression e), q') \<and> stream q' = t # ts"
    using parser_on_grammar(4) [of e q "t # ts" sc]
    by (simp add: Parse_def is_mulop_def is_addop_def)
next
  assume a: "wf_expression e2
      \<and> stream q2 = \<lparr>Type = LPAREN, Value = ''(''\<rparr> # map token_of (lexemes_expression e2) @ t2 # ts2
      \<and> Type t2 = INVALID"
  then show "parseFactor sc q2 = Inl ExpectedClosingParen" and "Parse sc q2 = Inl ExpectedClosingParen"
    using invalid_in_parentheses [of e2 q2 t2 ts2 sc] by simp_all
next
  assume "Parse sc r = Inl err"
  then show "\<exists>us u vs. stream r = us @ u # vs
           \<and> ((Type u \<noteq> NUMBER \<and> Type u \<noteq> LPAREN \<and> err = ExpectedNumberOrParen (Type u))
                \<or> (Type u \<noteq> RPAREN \<and> err = ExpectedClosingParen))"
    using parser_consumed(1) [of r sc] by (simp add: Parse_def consumed.simps failure_at_def)
qed

theorem invalid_character_token_witness:
  "NextToken (NewLexer ''@'')
     = (\<lparr>Type = INVALID, Value = ''Invalid character: @''\<rparr>, \<lparr>input = ''@'', pos = 2, ch = CHR 0x00\<rparr>)
   \<and> parseFactor (\<lambda>s. None) (NewParser (NewLexer ''@'')) = Inl (ExpectedNumberOrParen INVALID)
   \<and> map_sum id fst (Parse (\<lambda>s. None) (NewParser (NewLexer ''2 @ 3''))) = Inr (Number (Finite False 2))
   \<and> Parse (\<lambda>s. None) (NewParser (NewLexer ''(2 @ 3)'')) = Inl ExpectedClosingParen
   \<and> Parse (\<lambda>s. None) (NewParser (NewLexer ''2 + @'')) = Inl (ExpectedNumberOrParen INVALID)
   \<and> stream (NewParser (NewLexer ''2 + @''))
       = [\<lparr>Type = NUMBER, Value = ''2''\<rparr>, \<lparr>Type = PLUS, Value = ''+''\<rparr>,
          \<lparr>Type = INVALID, Value = ''Invalid character: @''\<rparr>, \<lparr>Type = EOF, Value = []\<rparr>]"
proof -
  let ?two = "Expression (Term (Num ''2'') MNil) ANil"
  let ?at = "\<lparr>Type = INVALID, Value = ''Invalid character: @''\<rparr>"
  have s1: "stream (NewParser (NewLexer ''2 @ 3''))
      = map token_of (lexemes_expression ?two) @ ?at # [\<lparr>Type = NUMBER, Value = ''3''\<rparr>, \<lparr>Type = EOF, Value = []\<rparr>]"
    by (simp add: stream_eval lex_eval parse_eval token_of_def)
  have s2: "stream (NewParser (NewLexer ''(2 @ 3)''))
      = \<lparr>Type = LPAREN, Value = ''(''\<rparr> # map token_of (lexemes_expression ?two) @ ?at
          # [\<lparr>Type = NUMBER, Value = ''3''\<rparr>, \<lparr>Type = RPAREN, Value = '')''\<rparr>, \<lparr>Type = EOF, Value = []\<rparr>]"
    by (simp add: stream_eval lex_eval parse_eval token_of_def)
  have s3: "stream (NewParser (NewLexer ''2 + @''))
       = [\<lparr>Type = NUMBER, Value = ''2''\<rparr>, \<lparr>Type = PLUS, Value = ''+''\<rparr>, ?at, \<lparr>Type = EOF, Value = []\<rparr>]"
    by (simp add: stream_eval lex_eval parse_eval)
  have w: "wf_expression ?two" by (simp add: spec_eval IsDigit_def)
  have e: "Parse (\<lambda>s. None) (NewParser (NewLexer ''2 + @'')) = Inl (ExpectedNumberOrParen INVALID)"
    by (simp add: lex_eval parse_eval num_eval)
  show ?thesis
    using invalid_character_token [where l = "NewLexer ''@''" and p = "NewParser (NewLexer ''@'')"
        and sc = "\<lambda>s. None" and left = Other and e = ?two and q = "NewParser (NewLexer ''2 @ 3'')"
        and t = ?at and ts = "[\<lparr>Type = NUMBER, Value = ''3''\<rparr>, \<lparr>Type = EOF, Value = []\<rparr>]"
        and ?e2.0 = ?two and ?q2.0 = "NewParser (NewLexer ''(2 @ 3)'')" and ?t2.0 = ?at
        and ?ts2.0 = "[\<lparr>Type = NUMBER, Value = ''3''\<rparr>, \<lparr>Type = RPAREN, Value = '')''\<rparr>, \<lparr>Type = EOF, Value = []\<rparr>]"
        and r = "NewParser (NewLexer ''2 + @'')" and err = "ExpectedNumberOrParen INVALID"]
      s1 s2 s3 w e
    by (simp add: lex_eval parse_eval num_eval)
qed

text \<open>
  Claim C3 as it was stated fails. In \<open>"(2 @ 3)"\<close> the \<open>INVALID\<close> token stands where
  an operator would go (with \<open>+\<close> in its place, and with nothing in its place and no
  \<open>3\<close>, the text parses); it is never the current token at the start of a factor, and
  \<open>Parse\<close> fails, with the missing-closing-parenthesis error.
\<close>

theorem invalid_character_token_counterexample:
  "stream (NewParser (NewLexer ''(2 @ 3)''))
     = [\<lparr>Type = LPAREN, Value = ''(''\<rparr>, \<lparr>Type = NUMBER, Value = ''2''\<rparr>,
        \<lparr>Type = INVALID, Value = ''Invalid character: @''\<rparr>, \<lparr>Type = NUMBER, Value = ''3''\<rparr>,
        \<lparr>Type = RPAREN, Value = '')''\<rparr>, \<lparr>Type = EOF, Value = []\<rparr>]
   \<and> Parse (\<lambda>s. None) (NewParser (NewLexer ''(2 @ 3)'')) = Inl ExpectedClosingParen
   \<and> map_sum id fst (Parse (\<lambda>s. None) (NewParser (NewLexer ''(2 + 3)'')))
       = Inr (BinaryOp (Number (Finite False 2)) \<lparr>Type = PLUS, Value = ''+''\<rparr> (Number (Finite False 3)))
   \<and> map_sum id fst (Parse (\<lambda>s. None) (NewParser (NewLexer ''(2)''))) = Inr (Number (Finite False 2))"
  by (simp add: stream_eval lex_eval parse_eval num_eval)

text \<open>
  Claim C4. On a \<open>LPAREN\<close> current token \<open>parseFactor\<close> consumes it and parses a full
  expression. An error of that parse is returned as it is; when the current token after
  the expression is not \<open>RPAREN\<close> the result is the missing-closing-parenthesis error;
  when it is \<open>RPAREN\<close>, that token is consumed and the tree of the inner expression is
  returned unchanged.
\<close>

theorem parenthesised_factor:
  assumes "Type (curr p) = LPAREN"
  shows "(parseExpr sc (nextToken p) = Inl err \<longrightarrow> parseFactor sc p = Inl err)
     \<and> (parseExpr sc (nextToken p) = Inr (expr, p2) \<and> Type (curr p2) \<noteq> RPAREN \<longrightarrow>
          parseFactor sc p = Inl ExpectedClosingParen)
     \<and> (parseExpr sc (nextToken p) = Inr (expr, p2) \<and> Type (curr p2) = RPAREN \<longrightarrow>
          parseFactor sc p = Inr (expr, nextToken p2))"
  using assms by (simp add: parseFactor.simps)

theorem parenthesised_factor_witness:
  "Type (curr (NewParser (NewLexer ''(2 + 3''))) = LPAREN
   \<and> parseExpr (\<lambda>s. None) (nextToken (NewParser (NewLexer ''(2 + 3'')))
       = Inr (BinaryOp (Number (Finite False 2)) \<lparr>Type = PLUS, Value = ''+''\<rparr> (Number (Finite False 3)),
              \<lparr>lexer = \<lparr>input = ''(2 + 3'', pos = 7, ch = CHR 0x00\<rparr>, curr = \<lparr>Type = EOF, Value = []\<rparr>\<rparr>)
   \<and> parseFactor (\<lambda>s. None) (NewParser (NewLexer ''(2 + 3'')) = Inl ExpectedClosingParen
   \<and> Type (curr (NewParser (NewLexer ''(2 + 3)''))) = LPAREN
   \<and> parseExpr (\<lambda>s. None) (nextToken (NewParser (NewLexer ''(2 + 3)'')))
       = Inr (BinaryOp (Number (Finite False 2)) \<lparr>Type = PLUS, Value = ''+''\<rparr> (Number (Finite False 3)),
              \<lparr>lexer = \<lparr>input = ''(2 + 3)'', pos = 8, ch = CHR 0x00\<rparr>, curr = \<lparr>Type = RPAREN, Value = '')''\<rparr>\<rparr>)
   \<and> parseFactor (\<lambda>s. None) (NewParser (NewLexer ''(2 + 3)''))
       = Inr (BinaryOp (Number (Finite False 2)) \<lparr>Type = PLUS, Value = ''+''\<rparr> (Number (Finite False 3)),
              \<lparr>lexer = \<lparr>input = ''(2 + 3)'', pos = 8, ch = CHR 0x00\<rparr>, curr = \<lparr>Type = EOF, Value = []\<rparr>\<rparr>)"
proof -
  let ?e = "BinaryOp (Number (Finite False 2)) \<lparr>Type = PLUS, Value = ''+''\<rparr> (Number (Finite False 3))"
  have a: "Type (curr (NewParser (NewLexer ''(2 + 3''))) = LPAREN"
    by (simp add: lex_eval parse_eval)
  have b: "Type (curr (NewParser (NewLexer ''(2 + 3)''))) = LPAREN"
    by (simp add: lex_eval parse_eval)
  have c: "parseExpr (\<lambda>s. None) (nextToken (NewParser (NewLexer ''(2 + 3'')))
       = Inr (?e, \<lparr>lexer = \<lparr>input = ''(2 + 3'', pos = 7, ch = CHR 0x00\<rparr>, curr = \<lparr>Type = EOF, Value = []\<rparr>\<rparr>)"
    by (simp add: lex_eval parse_eval num_eval)
  have d: "parseExpr (\<lambda>s. None) (nextToken (NewParser (NewLexer ''(2 + 3)'')))
       = Inr (?e, \<lparr>lexer = \<lparr>input = ''(2 + 3)'', pos = 8, ch = CHR 0x00\<rparr>, curr = \<lparr>Type = RPAREN, Value = '')''\<rparr>\<rparr>)"
    by (simp add: lex_eval parse_eval num_eval)
  show ?thesis
    using a b c d
      parenthesised_factor [OF a, of "\<lambda>s. None" ExpectedClosingParen ?e
        "\<lparr>lexer = \<lparr>input = ''(2 + 3'', pos = 7, ch = CHR 0x00\<rparr>, curr = \<lparr>Type = EOF, Value = []\<rparr>\<rparr>"]
      parenthesised_factor [OF b, of "\<lambda>s. None" ExpectedClosingParen ?e
        "\<lparr>lexer = \<lparr>input = ''(2 + 3)'', pos = 8, ch = CHR 0x00\<rparr>, curr = \<lparr>Type = RPAREN, Value = '')''\<rparr>\<rparr>"]
    by (simp add: lex_eval nextToken_def)
qed

text \<open>
  Claim C5. On a primed lexer (every lexer made by \<open>NewLexer\<close> and advanced by
  \<open>NextToken\<close> is primed) whose lookahead after the white space is a decimal digit,
  \<open>NextToken\<close> returns a \<open>NUMBER\<close> token whose payload is the maximal run of digits of
  the input that starts at the first position after the white space: the payload is not
  empty and holds digits only, the input is unchanged, the cursor has moved by the length
  of the run, and the lookahead afterwards is the byte that follows the run (the sentinel
  at the end of the input), which is not a digit.
\<close>

theorem number_token_is_maximal_digit_run:
  assumes "primed l" and "IsDigit (ch (skipSpace l))"
  shows "fst (NextToken l)
           = \<lparr>Type = NUMBER, Value = takeWhile IsDigit (drop (pos (skipSpace l) - 1) (input l))\<rparr>
     \<and> drop (pos (skipSpace l) - 1) (input l) = dropWhile IsSpace (drop (pos l - 1) (input l))
     \<and> Value (fst (NextToken l)) \<noteq> [] \<and> list_all IsDigit (Value (fst (NextToken l)))
     \<and> input (snd (NextToken l)) = input l
     \<and> pos (snd (NextToken l)) - 1 = pos (skipSpace l) - 1 + length (Value (fst (NextToken l)))
     \<and> ch (snd (NextToken l)) = lookahead (drop (pos (snd (NextToken l)) - 1) (input l))
     \<and> \<not> IsDigit (ch (snd (NextToken l)))"
proof -
  let ?l1 = "skipSpace l"
  let ?run = "takeWhile IsDigit (unread ?l1)"
  have p1: "primed ?l1" and u1: "unread ?l1 = dropWhile IsSpace (unread l)"
    using skipSpace_spec [OF assms(1)] by simp_all
  have nz: "ch ?l1 \<noteq> CHR 0x00" using assms(2) by (rule IsDigit_nonzero)
  have nt: "NextToken l = (\<lparr>Type = NUMBER, Value = fst (readNumber ?l1)\<rparr>, readDigits ?l1)"
    using nz assms(2) by (simp add: NextToken_def Let_def case_prod_beta readNumber_def)
  have v: "fst (readNumber ?l1) = ?run" by (rule readNumber_spec [OF p1])
  have rd: "primed (readDigits ?l1)" "unread (readDigits ?l1) = dropWhile IsDigit (unread ?l1)"
    "pos (readDigits ?l1) = pos ?l1 + length ?run"
    using readDigits_spec [OF p1] by simp_all
  have ne: "?run \<noteq> []"
    using ch_unread [OF p1] assms(2) nz by (cases "unread ?l1") auto
  have al: "list_all IsDigit ?run"
    by (simp add: list_all_iff) (meson set_takeWhileD)
  have c2: "ch (readDigits ?l1) = lookahead (unread (readDigits ?l1))"
    by (rule ch_unread [OF rd(1)])
  have nd: "\<not> IsDigit (ch (readDigits ?l1))"
    unfolding c2 rd(2) by (rule lookahead_dropWhile) (simp add: IsDigit_def)
  have ps: "pos (readDigits ?l1) - 1 = pos ?l1 - 1 + length ?run"
    using rd(3) p1 by (simp add: primed_def)
  show ?thesis
    using nt v ne al nd ps c2 u1
    by (simp add: unread_def input_readDigits input_skipSpace)
qed

theorem number_token_is_maximal_digit_run_witness:
  "primed (NewLexer '' 12+3'') \<and> IsDigit (ch (skipSpace (NewLexer '' 12+3'')))
   \<and> fst (NextToken (NewLexer '' 12+3'')) = \<lparr>Type = NUMBER, Value = ''12''\<rparr>
   \<and> pos (snd (NextToken (NewLexer '' 12+3''))) - 1 = 3
   \<and> ch (snd (NextToken (NewLexer '' 12+3''))) = CHR ''+''"
proof -
  have a: "primed (NewLexer '' 12+3'')" by (rule primed_NewLexer)
  have b: "IsDigit (ch (skipSpace (NewLexer '' 12+3'')))" by (simp add: lex_eval)
  show ?thesis
    using a b number_token_is_maximal_digit_run [OF a b] by (simp add: lex_eval)
qed

text \<open>
  Claim C6. \<open>Parse\<close> does not ask for the end of the input. When the lexemes of the
  input text are those of an expression of the grammar followed by further lexemes, the
  first of which is not one of the four operators, \<open>Parse\<close> succeeds and returns the tree
  of that leading expression, the same tree that it returns on the leading expression
  alone; the trailing tokens are left unread in the parser and no error is reported.
\<close>

theorem trailing_tokens_ignored:
  assumes "wf_expression e" and "layout ps" and "stop fin"
    and "map snd ps = lexemes_expression e @ x # xs"
    and "Type (token_of x) \<notin> {PLUS, MINUS, MULT, DIV}"
  shows "(\<exists>p'. Parse sc (NewParser (NewLexer (spell ps fin))) = Inr (tree sc (ast_expression e), p')
           \<and> stream p' = map token_of (x # xs) @ [\<lparr>Type = EOF, Value = []\<rparr>])
     \<and> map_sum id fst (Parse sc (NewParser (NewLexer (spell ps fin))))
         = map_sum id fst (Parse sc (NewParser (NewLexer
             (spell (take (length (lexemes_expression e)) ps) []))))"
proof -
  have a: "\<exists>p'. Parse sc (NewParser (NewLexer (spell ps fin))) = Inr (tree sc (ast_expression e), p')
           \<and> stream p' = map token_of (x # xs) @ [\<lparr>Type = EOF, Value = []\<rparr>]"
    using parse_layout [OF assms(1,2,3,4), of sc] assms(5) by (simp add: is_mulop_def is_addop_def)
  let ?ps0 = "take (length (lexemes_expression e)) ps"
  have m: "map snd ?ps0 = lexemes_expression e @ []"
    using assms(4) by (simp add: take_map [symmetric])
  have "\<exists>p'. Parse sc (NewParser (NewLexer (spell ?ps0 []))) = Inr (tree sc (ast_expression e), p')
           \<and> stream p' = map token_of [] @ [\<lparr>Type = EOF, Value = []\<rparr>]"
    by (rule parse_layout [OF assms(1) layout_take [OF assms(2)] _ m]) (simp_all add: stop_def)
  then show ?thesis using a by auto
qed

theorem trailing_tokens_ignored_witness:
  "map_sum id fst (Parse (\<lambda>s. None) (NewParser (NewLexer ''2 3''))) = Inr (Number (Finite False 2))
   \<and> map_sum id fst (Parse (\<lambda>s. None) (NewParser (NewLexer ''1+2)'')))
       = Inr (BinaryOp (Number (Finite False 1)) \<lparr>Type = PLUS, Value = ''+''\<rparr> (Number (Finite False 2)))
   \<and> map_sum id fst (Parse (\<lambda>s. None) (NewParser (NewLexer ''1+2)'')))
       = map_sum id fst (Parse (\<lambda>s. None) (NewParser (NewLexer ''1+2'')))"
proof -
  let ?e1 = "Expression (Term (Num ''2'') MNil) ANil"
  let ?p1 = "[([], ''2''), ('' '', ''3'')]"
  let ?e2 = "Expression (Term (Num ''1'') MNil) (ACons Add (Term (Num ''2'') MNil) ANil)"
  let ?p2 = "[([], ''1''), ([], ''+''), ([], ''2''), ([], '')'')]"
  have w: "wf_expression ?e1" "wf_expression ?e2" by (simp_all add: spec_eval IsDigit_def)
  have l: "layout ?p1" "layout ?p2" by (simp_all add: spec_eval IsDigit_def IsSpace_def)
  have s: "stop []" by (simp add: stop_def)
  have m: "map snd ?p1 = lexemes_expression ?e1 @ ''3'' # []"
    "map snd ?p2 = lexemes_expression ?e2 @ '')'' # []" by simp_all
  have t: "Type (token_of ''3'') \<notin> {PLUS, MINUS, MULT, DIV}"
    "Type (token_of '')'') \<notin> {PLUS, MINUS, MULT, DIV}"
    by (simp_all add: token_of_def symbol_def IsDigit_def)
  show ?thesis
    using trailing_tokens_ignored [OF w(1) l(1) s m(1) t(1), of "\<lambda>s. None"]
      trailing_tokens_ignored [OF w(2) l(2) s m(2) t(2), of "\<lambda>s. None"]
    by (auto simp: num_eval IsDigit_def)
qed

text \<open>
  Claim C7. Two input texts with the same lexemes, laid out with any runs of white space
  before, between and after them (the ASCII white space characters are white space for
  \<open>unicode.IsSpace\<close>), give the same tokens, the same tree or error from \<open>Parse\<close>, and
  the same result or error from the whole run.
\<close>

theorem whitespace_between_tokens:
  assumes "layout ps" and "layout ps'" and "map snd ps = map snd ps'"
    and "stop fin" and "stop fin'"
  shows "tokens (NewLexer (spell ps fin)) = tokens (NewLexer (spell ps' fin'))
     \<and> tokens (NewLexer (spell ps fin)) = map token_of (map snd ps) @ [\<lparr>Type = EOF, Value = []\<rparr>]
     \<and> map_sum id fst (Parse sc (NewParser (NewLexer (spell ps fin))))
         = map_sum id fst (Parse sc (NewParser (NewLexer (spell ps' fin'))))
     \<and> run sc (spell ps fin) = run sc (spell ps' fin')"
proof -
  have m: "map (\<lambda>(w, x). token_of x) qs = map token_of (map snd qs)" for qs :: "(string \<times> string) list"
    by (induction qs) auto
  have a: "tokens (NewLexer (spell ps fin)) = map token_of (map snd ps) @ [\<lparr>Type = EOF, Value = []\<rparr>]"
    using tokens_layout [OF primed_NewLexer unread_NewLexer assms(1,4)] m by simp
  have b: "tokens (NewLexer (spell ps' fin')) = map token_of (map snd ps') @ [\<lparr>Type = EOF, Value = []\<rparr>]"
    using tokens_layout [OF primed_NewLexer unread_NewLexer assms(2,5)] m by simp
  have e: "tokens (NewLexer (spell ps fin)) = tokens (NewLexer (spell ps' fin'))"
    using a b assms(3) by simp
  show ?thesis using a e run_tokens [OF e] by simp
qed

theorem whitespace_between_tokens_witness:
  "layout [([], ''2''), ([], ''+''), ([], ''3'')]
   \<and> layout [('' '', ''2''), ('' '', ''+''), (''   '', ''3'')]
   \<and> stop [] \<and> stop '' ''
   \<and> tokens (NewLexer ''2+3'') = tokens (NewLexer '' 2 +   3 '')
   \<and> run (\<lambda>s. None) ''2+3'' = run (\<lambda>s. None) '' 2 +   3 ''
   \<and> run (\<lambda>s. None) ''2+3'' = Inr (Finite False 5)"
proof -
  have a: "layout [([], ''2''), ([], ''+''), ([], ''3'')]"
    by (simp add: lexeme_def digits_def IsDigit_def IsSpace_def)
  have b: "layout [('' '', ''2''), ('' '', ''+''), (''   '', ''3'')]"
    by (simp add: lexeme_def digits_def IsDigit_def IsSpace_def)
  have c: "map snd [([], ''2''), ([], ''+''), ([], ''3'')]
      = map snd [('' '', ''2''), ('' '', ''+''), (''   '', ''3'')]" by simp
  have d: "stop []" "stop '' ''" by (simp_all add: stop_def IsSpace_def)
  have "run (\<lambda>s. None) ''2+3'' = Inr (Finite False 5)"
    by (simp add: run_def lex_eval parse_eval num_eval)
  then show ?thesis
    using a b d whitespace_between_tokens [OF a b c d, of "\<lambda>s. None"] by simp
qed

text \<open>
  Claim C8, at the numeral \<open>1\<close> followed by 309 zeros (\<open>10\<^sup>3\<^sup>0\<^sup>9\<close>). It is a string of
  digits, the lexer returns it as the payload of one \<open>NUMBER\<close> token, its value is above
  the binary64 range, so the conversion overflows and the scan stores nothing:
  \<open>parseNumber\<close> returns 0, and so does the whole run.
\<close>

theorem parseNumber_large_numeral:
  "digits (CHR ''1'' # replicate 309 (CHR ''0''))
   \<and> tokens (NewLexer (CHR ''1'' # replicate 309 (CHR ''0'')))
       = [\<lparr>Type = NUMBER, Value = CHR ''1'' # replicate 309 (CHR ''0'')\<rparr>, \<lparr>Type = EOF, Value = []\<rparr>]
   \<and> decimal (CHR ''1'' # replicate 309 (CHR ''0'')) = 10 ^ 309
   \<and> round64 False (10 ^ 309) = Infinite False
   \<and> parseNumber other (CHR ''1'' # replicate 309 (CHR ''0'')) = Finite False 0
   \<and> run other (CHR ''1'' # replicate 309 (CHR ''0'')) = Inr (Finite False 0)"
proof -
  let ?s = "CHR ''1'' # replicate 309 (CHR ''0'')"
  have d: "digits ?s" by (simp add: digits_def IsDigit_def list_all_iff)
  have v: "decimal ?s = 10 ^ 309"
    using decimal_append_zeros [of "''1''" 309] by (simp add: decimal_def)
  have o: "round64 False (10 ^ 309) = Infinite False"
    by (rule round64_overflow) (simp add: pow2_def)
  have p: "parseNumber other ?s = Finite False 0"
    using d v o by (simp add: parseNumber_def Sscanf_f_def digits_def)
  have l: "layout [([], ?s)]" using d by (simp add: lexeme_def)
  have t: "tokens (NewLexer ?s) = [\<lparr>Type = NUMBER, Value = ?s\<rparr>, \<lparr>Type = EOF, Value = []\<rparr>]"
    using tokens_layout [OF primed_NewLexer unread_NewLexer l, of "[]"] token_of_digits [OF d]
    by (simp add: stop_def)
  have "\<exists>p'. Parse other (NewParser (NewLexer (spell [([], ?s)] [])))
      = Inr (tree other (ast_expression (Expression (Term (Num ?s) MNil) ANil)), p')
      \<and> stream p' = map token_of [] @ [\<lparr>Type = EOF, Value = []\<rparr>]"
    by (rule parse_layout [OF _ l]) (use d in \<open>simp_all add: stop_def\<close>)
  then have "run other ?s = Inr (Finite False 0)" using p by (auto simp: run_def)
  then show ?thesis using d t v o p by simp
qed

text \<open>
  Claim C10. The scan cursor only advances. Every \<open>readChar\<close> loads the byte at index
  \<open>pos\<close> (or the sentinel past the end) and moves the cursor one step forward, so no
  index is loaded twice; a call of \<open>NextToken\<close> never lowers \<open>pos\<close>; and along any
  sequence of calls the cursor after \<open>n + k\<close> calls is at least the cursor after \<open>n\<close>
  calls. The input text itself is never changed.
\<close>

theorem cursor_only_advances:
  "pos (readChar l) = pos l + 1
   \<and> ch (readChar l) = (if pos l < length (input l) then input l ! pos l else CHR 0x00)
   \<and> pos l \<le> pos (snd (NextToken l))
   \<and> pos (after_calls n l) \<le> pos (after_calls (n + k) l)
   \<and> input (after_calls n l) = input l"
proof -
  have "pos (after_calls n l) \<le> pos (after_calls (n + k) l)"
    by (simp add: after_calls_add pos_after_calls)
  moreover have "input (after_calls n l) = input l"
    by (induction n arbitrary: l) (simp_all add: input_NextToken)
  moreover have "ch (readChar l) = (if pos l < length (input l) then input l ! pos l else CHR 0x00)"
    by (simp add: readChar_def)
  ultimately show ?thesis by (simp add: pos_readChar pos_NextToken)
qed

end
